theory Spec2Isabelle
  imports Main "HOL-Library.AList" "HOL-Library.Sublist"
begin

section \<open>Python strings\<close>

text \<open>
  A Python \<open>str\<close> is modelled as a \<open>string\<close>: a list of characters whose code points
  are below 256. Code points above that range are outside the model.
\<close>

abbreviation LF :: char where "LF \<equiv> CHR 0x0A"
abbreviation CR :: char where "CR \<equiv> CHR 0x0D"

text \<open>
  \<open>str.isspace\<close> on one character, which is also what \<open>\s\<close> matches in a \<open>str\<close> pattern:
  tab, LF, VT, FF, CR, the separators 0x1C..0x1F, space, NEL (0x85) and NBSP (0xA0).
\<close>

definition isspace :: "char \<Rightarrow> bool" where
  "isspace c = (of_char c \<in> set [9, 10, 11, 12, 13, 28, 29, 30, 31, 32, 133, 160 :: nat])"

text \<open>\<open>s.strip()\<close> with no argument.\<close>

definition strip :: "string \<Rightarrow> string" where
  "strip s = rev (dropWhile isspace (rev (dropWhile isspace s)))"

text \<open>
  \<open>s.splitlines()\<close>: the line boundaries are LF, CR, CR LF, VT, FF, 0x1C, 0x1D, 0x1E and
  NEL; the boundaries are dropped and a boundary at the very end opens no further line.
\<close>

definition is_linebreak :: "char \<Rightarrow> bool" where
  "is_linebreak c = (of_char c \<in> set [10, 11, 12, 13, 28, 29, 30, 133 :: nat])"

fun splitlines_from :: "string \<Rightarrow> string \<Rightarrow> string list" where
  "splitlines_from cur [] = (if cur = [] then [] else [cur])"
| "splitlines_from cur [c] = (if is_linebreak c then [cur] else [cur @ [c]])"
| "splitlines_from cur (c # d # cs) =
     (if c = CR \<and> d = LF then cur # splitlines_from [] cs
      else if is_linebreak c then cur # splitlines_from [] (d # cs)
      else splitlines_from (cur @ [c]) (d # cs))"

definition splitlines :: "string \<Rightarrow> string list" where
  "splitlines s = splitlines_from [] s"

text \<open>\<open>s.split(sep)\<close> for a one-character separator, without a limit.\<close>

fun split_all :: "char \<Rightarrow> string \<Rightarrow> string list" where
  "split_all sep [] = [[]]"
| "split_all sep (c # cs) =
     (if c = sep then [] # split_all sep cs
      else (case split_all sep cs of l # ls \<Rightarrow> (c # l) # ls | [] \<Rightarrow> [[c]]))"

text \<open>\<open>s.split(sep, maxsplit)\<close>: at most \<open>maxsplit\<close> cuts, from the left.\<close>

fun split_max :: "char \<Rightarrow> nat \<Rightarrow> string \<Rightarrow> string list" where
  "split_max sep 0 s = [s]"
| "split_max sep (Suc n) [] = [[]]"
| "split_max sep (Suc n) (c # cs) =
     (if c = sep then [] # split_max sep n cs
      else (case split_max sep (Suc n) cs of l # ls \<Rightarrow> (c # l) # ls | [] \<Rightarrow> [[c]]))"

text \<open>
  Reading a file in text mode (\<open>Path.read_text\<close>) translates CR LF and a lone CR to LF
  (universal newlines). Writing on a POSIX system translates nothing.
\<close>

fun universal_newlines :: "string \<Rightarrow> string" where
  "universal_newlines [] = []"
| "universal_newlines [c] = (if c = CR then [LF] else [c])"
| "universal_newlines (c # d # cs) =
     (if c = CR \<and> d = LF then LF # universal_newlines cs
      else if c = CR then LF # universal_newlines (d # cs)
      else c # universal_newlines (d # cs))"

section \<open>The guideline ledger (class Guidelines)\<close>

record guidelines =
  path :: string
  items :: "string list"

text \<open>
  The files the program itself writes and reads back are kept in a store from paths to
  contents; a path that is not in the store does not exist.
\<close>

type_synonym files = "string \<rightharpoonup> string"

definition header :: string where
  "header = ''# Bug-Fixer Prompt Guidelines (evolving)'' @ [LF, LF] @
     ''These are generalized, non-specific lessons learned. Avoid revealing exact historical fixes.'' @
     [LF, LF]"

definition bullet_list :: "string list \<Rightarrow> string" where
  "bullet_list its = concat (map (\<lambda>it. ''- '' @ it @ [LF]) its)"

definition save :: "guidelines \<Rightarrow> files \<Rightarrow> files" where
  "save g fs = fs(path g \<mapsto> header @ bullet_list (items g))"

text \<open>
  \<open>re.findall(r"^- (.+)$", text, flags=re.MULTILINE)\<close>. With MULTILINE, \<open>^\<close> holds at the
  start and after every LF, \<open>$\<close> before every LF and at the end, and \<open>.\<close> is any
  character but LF. A match is therefore a whole LF-delimited line that starts with
  \<open>- \<close> and has at least one more character; the group is the rest of that line.
\<close>

definition findall_bullets :: "string \<Rightarrow> string list" where
  "findall_bullets text =
     map (drop 2) (filter (\<lambda>l. take 2 l = ''- '' \<and> 2 < length l) (split_all LF text))"

definition load :: "guidelines \<Rightarrow> files \<Rightarrow> guidelines" where
  "load g fs =
     (case fs (path g) of
        None \<Rightarrow> g
      | Some content \<Rightarrow>
          g\<lparr>items := filter (\<lambda>b. b \<noteq> [])
                        (map strip (findall_bullets (universal_newlines content)))\<rparr>)"

definition as_bullets :: "guidelines \<Rightarrow> string" where
  "as_bullets g =
     (if items g = [] then
        ''- Think step-by-step. Isolate root cause before editing.'' @ [LF] @
        ''- Do not modify tests. Change only the minimal app code.'' @ [LF] @
        ''- Prefer small, targeted diffs. Preserve public APIs.'' @ [LF] @
        ''- Check for null/undefined, off-by-one, and incorrect assumptions.'' @ [LF] @
        ''- Respect TypeScript types; ensure code compiles.'' @ [LF]
      else bullet_list (items g))"

text \<open>
  The merge of the coach's output into the ledger (the loop
  \<open>for g in new_guides: if g not in merged: merged.append(g)\<close>).
\<close>

fun merge_new :: "string list \<Rightarrow> string list \<Rightarrow> string list" where
  "merge_new merged [] = merged"
| "merge_new merged (g # gs) =
     merge_new (if g \<in> set merged then merged else merged @ [g]) gs"

section \<open>The coach's answer (PromptRefinerAgent.refine, parsing)\<close>

text \<open>
  The value \<open>json.loads\<close> returns. \<open>json.loads\<close> itself is Python's library and is a
  parameter of the model: a function from the text to the decoded value, \<open>None\<close> when it
  raises.
\<close>

datatype json =
    JNull
  | JBool bool
  | JNumber int
  | JString string
  | JArray "json list"
  | JObject "(string \<times> json) list"

text \<open>The loop over \<open>arr\<close> that fills \<open>cleaned\<close>.\<close>

fun clean_items :: "string list \<Rightarrow> json list \<Rightarrow> string list" where
  "clean_items cleaned [] = cleaned"
| "clean_items cleaned (it # arr) =
     (case it of
        JString t \<Rightarrow>
          (let s = strip t
           in clean_items (if s \<noteq> [] \<and> s \<notin> set cleaned then cleaned @ [s] else cleaned) arr)
      | _ \<Rightarrow> clean_items cleaned arr)"

text \<open>
  \<open>re.match(r'^\s*[-*]\s+(.*)$', line)\<close> on one line of \<open>out.splitlines()\<close>, which holds
  no LF: leading whitespace, a dash or a star, at least one whitespace character, and
  the group is what follows that whitespace, up to the end of the line.
\<close>

definition bullet_match :: "string \<Rightarrow> string option" where
  "bullet_match line =
     (case dropWhile isspace line of
        [] \<Rightarrow> None
      | c # rest \<Rightarrow>
          (case rest of
             [] \<Rightarrow> None
           | d # _ \<Rightarrow>
               if (c = CHR ''-'' \<or> c = CHR ''*'') \<and> isspace d
               then Some (dropWhile isspace rest) else None))"

fun fallback_lines :: "string list \<Rightarrow> string list \<Rightarrow> string list" where
  "fallback_lines found [] = found"
| "fallback_lines found (line # ls) =
     (case bullet_match line of
        None \<Rightarrow> fallback_lines found ls
      | Some t \<Rightarrow>
          (let g = strip t
           in fallback_lines (if g \<noteq> [] \<and> g \<notin> set found then found @ [g] else found) ls))"

definition parse_guidelines :: "(string \<Rightarrow> json option) \<Rightarrow> string \<Rightarrow> string list" where
  "parse_guidelines loads out =
     (case loads out of
        Some (JArray arr) \<Rightarrow> take 4 (clean_items [] arr)
      | _ \<Rightarrow> take 4 (fallback_lines [] (splitlines out)))"

text \<open>A string is blank when nothing is left of it after \<open>strip\<close>.\<close>

definition blank :: "string \<Rightarrow> bool" where
  "blank s = (strip s = [])"

section \<open>Diff shape and diff size\<close>

definition startswith :: "string \<Rightarrow> string \<Rightarrow> bool" where
  "startswith s p = (take (length p) s = p)"

text \<open>
  The suffixes of a text at which \<open>^\<close> holds under MULTILINE: the text itself and what
  follows each LF.
\<close>

fun after_lf :: "string \<Rightarrow> string list" where
  "after_lf [] = []"
| "after_lf (c # cs) = (if c = LF then cs # after_lf cs else after_lf cs)"

definition line_starts :: "string \<Rightarrow> string list" where
  "line_starts s = s # after_lf s"

text \<open>
  \<open>\s*diff\s+--git\s\<close> and \<open>\s*---\s\<close> matched at the start of a suffix. Neither \<open>diff\<close>,
  \<open>--git\<close> nor \<open>---\<close> starts with whitespace, so each run of whitespace is taken whole.
\<close>

definition match_diff_git :: "string \<Rightarrow> bool" where
  "match_diff_git s =
     (let r = dropWhile isspace s;
          r2 = drop 4 r;
          r3 = dropWhile isspace r2;
          r4 = drop 5 r3
      in startswith r ''diff'' \<and> r2 \<noteq> [] \<and> isspace (hd r2) \<and>
         startswith r3 ''--git'' \<and> r4 \<noteq> [] \<and> isspace (hd r4))"

definition match_dashes :: "string \<Rightarrow> bool" where
  "match_dashes s =
     (let r = dropWhile isspace s; r2 = drop 3 r
      in startswith r ''---'' \<and> r2 \<noteq> [] \<and> isspace (hd r2))"

definition looks_like_diff :: "string \<Rightarrow> bool" where
  "looks_like_diff proposed =
     (list_ex match_diff_git (line_starts proposed) \<or>
      list_ex match_dashes (line_starts proposed))"

definition count_diff_lines :: "string \<Rightarrow> nat \<times> nat" where
  "count_diff_lines diff_text =
     (length (filter (\<lambda>l. startswith l ''+'' \<and> \<not> startswith l ''+++'') (splitlines diff_text)),
      length (filter (\<lambda>l. startswith l ''-'' \<and> \<not> startswith l ''---'') (splitlines diff_text)))"

text \<open>\<open>ClaudeClient.complete\<close> without the SDK returns this text.\<close>

definition placeholder :: string where
  "placeholder = ''/* ERROR: anthropic not installed or API key missing. */''"

section \<open>Configuration, scenarios, collaborators\<close>

record Config =
  repo_path :: string
  limit_commits :: int
  test_command :: string
  node_env :: "(string \<times> string) list"
  max_fix_attempts_per_bug :: int
  max_refine_iterations_per_bug :: int
  logs_dir :: string
  guidelines_file :: string
  llm_model_bug_fixer :: string
  llm_model_refiner :: string
  require_approval :: bool
  max_context_bytes_per_file :: int
  bugfix_grep :: "string list"

record BugScenario =
  parent_commit :: string
  fix_commit :: string
  subject :: string
  files_changed :: "string list"
  human_diff :: string

datatype error = RuntimeError | ValueError

text \<open>
  The commands \<open>run_cmd\<close> is called with (all in the repository directory). A patch is
  named by its text: the temporary file it is written to holds exactly that.
\<close>

datatype cmd =
    GitResetHard
  | GitClean
  | GitCheckout string
  | GitApply string
  | GitApplyReject string
  | GitLog int "string list"
  | GitDiffNameOnly string string
  | GitDiffUnified string string
  | TestCommand string "(string \<times> string) list"

text \<open>
  What a call of \<open>LLMClient.complete\<close> is made from. The two prompts are texts built from
  these values and from nothing else; the model passes the values and leaves the layout
  of the prompt text to the completion service. The failure evidence is carried as the
  raw test output, of which \<open>parse_jest_like_failures\<close> computes the other two fields.
\<close>

datatype llm_request =
    PatchRequest
      (req_guidelines: string) (req_parent: string) (req_fix: string)
      (req_files: "string list") (req_failing: string)
      (req_context: "(string \<times> string) list") (req_model: string)
  | GuidelineRequest
      (req_failing: string) (req_last_diff: string) (req_human_diff: string)
      (req_guidelines: string) (req_model: string)

text \<open>One entry for every \<open>log_buf.append\<close> of the orchestrator, with the values it prints.\<close>

datatype log_entry =
    LogHeader string string string "string list"
  | LogBaseline string
  | LogAttemptPatch int string
  | LogAttemptOutput int string
  | LogSuccess int nat nat
  | LogRefineNone int
  | LogRefineNew int "string list"
  | LogBaselinePasses
  | LogPostAttemptPatch int string
  | LogPostAttemptOutput int string
  | LogSuccessAfterRefine int int nat nat
  | LogFailed

text \<open>
  Everything the program does to the outside, in the order it happens, each with the
  answer it got: a command with its result (exit code, standard output, standard error); a
  completion; an answer typed at the approval prompt; a look at a file of the
  repository; the log file of a scenario (directory, name and the joined entries).
  Console messages are not recorded.
\<close>

type_synonym result = "int \<times> string \<times> string"

datatype event =
    Ran cmd result
  | Completed llm_request string
  | Asked string
  | Exists string bool
  | ReadFile string string
  | WroteLog string string "log_entry list"

text \<open>
  \<open>ClaudeClient\<close>: \<open>None\<close> when the SDK could not be imported, else the service behind
  the SDK call, which may answer from everything that happened before.
\<close>

datatype llm_client = ClaudeClient "(event list \<Rightarrow> llm_request \<Rightarrow> string) option"

text \<open>
  The collaborators. Each answers from the history of the run so far, so any
  deterministic behaviour of git, the test runner, the service, the user and the
  repository's files is one value of this record. They return values: a collaborator
  that raises is outside the model.
\<close>

record world =
  subprocess :: "event list \<Rightarrow> cmd \<Rightarrow> result"
  llm_bug :: llm_client
  llm_ref :: llm_client
  stdin :: "event list \<Rightarrow> string"
  path_exists :: "event list \<Rightarrow> string \<Rightarrow> bool"
  file_text :: "event list \<Rightarrow> string \<Rightarrow> int \<Rightarrow> string"
  json_loads :: "string \<Rightarrow> json option"

text \<open>The state of an \<open>Orchestrator\<close>, and the local variables of one scenario.\<close>

record orchestrator =
  trace :: "event list"
  guidelines :: guidelines
  files :: files

record run = orchestrator +
  failing_info :: string
  code_ctx :: "(string \<times> string) list"
  log_buf :: "log_entry list"
  success :: bool
  attempts :: int
  last_agent_diff :: string
  refine_success :: bool

section \<open>Utilities\<close>

definition run_cmd ::
  "world \<Rightarrow> cmd \<Rightarrow> 'a orchestrator_scheme \<Rightarrow> result \<times> 'a orchestrator_scheme" where
  "run_cmd w c st =
     (let r = subprocess w (trace st) c in (r, st\<lparr>trace := trace st @ [Ran c r]\<rparr>))"

definition ensure_clean_worktree :: "world \<Rightarrow> 'a orchestrator_scheme \<Rightarrow> 'a orchestrator_scheme" where
  "ensure_clean_worktree w st = snd (run_cmd w GitClean (snd (run_cmd w GitResetHard st)))"

definition git_checkout_detached ::
  "world \<Rightarrow> string \<Rightarrow> 'a orchestrator_scheme \<Rightarrow> error option \<times> 'a orchestrator_scheme" where
  "git_checkout_detached w commit st =
     (case run_cmd w (GitCheckout commit) (ensure_clean_worktree w st) of
        ((code, out, err), st') \<Rightarrow> (if code \<noteq> 0 then Some RuntimeError else None, st'))"

definition git_diff_name_only ::
  "world \<Rightarrow> string \<Rightarrow> string \<Rightarrow> 'a orchestrator_scheme \<Rightarrow> string list \<times> 'a orchestrator_scheme" where
  "git_diff_name_only w a b st =
     (case run_cmd w (GitDiffNameOnly a b) st of
        ((code, out, err), st') \<Rightarrow>
          (filter (\<lambda>l. l \<noteq> []) (map strip (splitlines out)), st'))"

definition git_diff_unified ::
  "world \<Rightarrow> string \<Rightarrow> string \<Rightarrow> 'a orchestrator_scheme \<Rightarrow> string \<times> 'a orchestrator_scheme" where
  "git_diff_unified w a b st =
     (case run_cmd w (GitDiffUnified a b) st of ((code, out, err), st') \<Rightarrow> (out, st'))"

text \<open>
  The loop of \<open>detect_bug_fix_commits\<close> over the lines of the log output. Unpacking
  \<open>(line.split("|", 2) + [""])[:3]\<close> into three names raises ValueError when the line has
  no bar at all.
\<close>

fun collect_pairs ::
  "(string \<times> string \<times> string) list \<Rightarrow> string list \<Rightarrow> error + (string \<times> string \<times> string) list" where
  "collect_pairs pairs [] = Inr pairs"
| "collect_pairs pairs (l # ls) =
     (let line = strip l
      in if line = [] then collect_pairs pairs ls
         else (case take 3 (split_max (CHR ''|'') 2 line @ [[]]) of
                 [commit, subj, parents] \<Rightarrow>
                   (let parent = (if parents \<noteq> []
                                  then (case split_all (CHR '' '') parents of p # _ \<Rightarrow> p | [] \<Rightarrow> [])
                                  else [])
                    in collect_pairs (if parent \<noteq> [] then pairs @ [(parent, commit, subj)] else pairs) ls)
               | _ \<Rightarrow> Inl ValueError))"

definition detect_bug_fix_commits ::
  "world \<Rightarrow> Config \<Rightarrow> 'a orchestrator_scheme \<Rightarrow>
     (error + (string \<times> string \<times> string) list) \<times> 'a orchestrator_scheme" where
  "detect_bug_fix_commits w cfg st =
     (case run_cmd w (GitLog (limit_commits cfg) (bugfix_grep cfg)) st of
        ((code, out, err), st') \<Rightarrow>
          (if code \<noteq> 0 then Inl RuntimeError else collect_pairs [] (splitlines out), st'))"

fun scenarios_of ::
  "world \<Rightarrow> (string \<times> string \<times> string) list \<Rightarrow> 'a orchestrator_scheme \<Rightarrow>
     BugScenario list \<times> 'a orchestrator_scheme" where
  "scenarios_of w [] st = ([], st)"
| "scenarios_of w ((parent, fix, subj) # pairs) st =
     (case git_diff_name_only w parent fix st of
        (changed, st1) \<Rightarrow>
          (case git_diff_unified w parent fix st1 of
             (hdiff, st2) \<Rightarrow>
               (case scenarios_of w pairs st2 of
                  (scs, st3) \<Rightarrow>
                    (\<lparr>parent_commit = parent, fix_commit = fix, subject = subj,
                       files_changed = changed, human_diff = hdiff\<rparr> # scs, st3))))"

definition build_scenarios ::
  "world \<Rightarrow> Config \<Rightarrow> 'a orchestrator_scheme \<Rightarrow> (error + BugScenario list) \<times> 'a orchestrator_scheme" where
  "build_scenarios w cfg st =
     (case detect_bug_fix_commits w cfg st of
        (Inl e, st1) \<Rightarrow> (Inl e, st1)
      | (Inr pairs, st1) \<Rightarrow> (case scenarios_of w pairs st1 of (scs, st2) \<Rightarrow> (Inr scs, st2)))"

text \<open>
  What \<open>git log --pretty=format:%H|%s|%P\<close> prints for a list of commits: one line per
  commit, the hash, the subject and the parents' hashes separated by spaces, with bars
  in between, and a line feed between two commits.
\<close>

record commit =
  commit_hash :: string
  commit_subject :: string
  commit_parents :: "string list"

fun join_with :: "string \<Rightarrow> string list \<Rightarrow> string" where
  "join_with sep [] = []"
| "join_with sep [x] = x"
| "join_with sep (x # y # ys) = x @ sep @ join_with sep (y # ys)"

definition pretty_line :: "commit \<Rightarrow> string" where
  "pretty_line c = commit_hash c @ ''|'' @ commit_subject c @ ''|'' @ join_with '' '' (commit_parents c)"

definition git_log_output :: "commit list \<Rightarrow> string" where
  "git_log_output cs = join_with [LF] (map pretty_line cs)"

section \<open>The agents\<close>

definition complete ::
  "llm_client \<Rightarrow> llm_request \<Rightarrow> 'a orchestrator_scheme \<Rightarrow> string \<times> 'a orchestrator_scheme" where
  "complete client req st =
     (let text = (case client of
                    ClaudeClient None \<Rightarrow> placeholder
                  | ClaudeClient (Some sdk) \<Rightarrow> sdk (trace st) req)
      in (text, st\<lparr>trace := trace st @ [Completed req text]\<rparr>))"

definition propose_patch ::
  "world \<Rightarrow> Config \<Rightarrow> BugScenario \<Rightarrow> string \<Rightarrow> (string \<times> string) list \<Rightarrow>
     'a orchestrator_scheme \<Rightarrow> string \<times> 'a orchestrator_scheme" where
  "propose_patch w cfg sc failing ctx st =
     complete (llm_bug w)
       (PatchRequest (as_bullets (guidelines st)) (parent_commit sc) (fix_commit sc)
          (files_changed sc) failing ctx (llm_model_bug_fixer cfg)) st"

definition refine ::
  "world \<Rightarrow> Config \<Rightarrow> BugScenario \<Rightarrow> string \<Rightarrow> string \<Rightarrow> string \<Rightarrow>
     'a orchestrator_scheme \<Rightarrow> string list \<times> 'a orchestrator_scheme" where
  "refine w cfg sc last_diff failing current st =
     (case complete (llm_ref w)
             (GuidelineRequest failing last_diff (human_diff sc) current (llm_model_refiner cfg)) st of
        (resp, st') \<Rightarrow> (parse_guidelines (json_loads w) (strip resp), st'))"

section \<open>Orchestration\<close>

text \<open>
  \<open>str.lower\<close> on the ASCII letters. The answer is only compared with \<open>y\<close>, which no
  other letter lowers to.
\<close>

definition lower :: "string \<Rightarrow> string" where
  "lower s = map (\<lambda>c. if 65 \<le> (of_char c :: nat) \<and> (of_char c :: nat) \<le> 90
                        then char_of (of_char c + (32 :: nat)) else c) s"

definition approval ::
  "world \<Rightarrow> Config \<Rightarrow> 'a orchestrator_scheme \<Rightarrow> bool \<times> 'a orchestrator_scheme" where
  "approval w cfg st =
     (if \<not> require_approval cfg then (True, st)
      else (let answer = stdin w (trace st)
            in (lower (strip answer) = ''y'', st\<lparr>trace := trace st @ [Asked answer]\<rparr>)))"

definition run_tests ::
  "world \<Rightarrow> Config \<Rightarrow> 'a orchestrator_scheme \<Rightarrow> (bool \<times> string) \<times> 'a orchestrator_scheme" where
  "run_tests w cfg st =
     (case run_cmd w (TestCommand (test_command cfg) (node_env cfg)) st of
        ((code, out, err), st') \<Rightarrow>
          ((code = 0, out @ (if err \<noteq> [] then LF # err else [])), st'))"

definition apply_unified_diff_with_git ::
  "world \<Rightarrow> string \<Rightarrow> 'a orchestrator_scheme \<Rightarrow> bool \<times> 'a orchestrator_scheme" where
  "apply_unified_diff_with_git w diff_text st =
     (case run_cmd w (GitApply diff_text) st of
        ((code, out, err), st1) \<Rightarrow>
          if code \<noteq> 0
          then (case run_cmd w (GitApplyReject diff_text) st1 of
                  ((code2, out2, err2), st2) \<Rightarrow> (if code2 \<noteq> 0 then (False, st2) else (True, st2)))
          else (True, st1))"

text \<open>
  \<open>load_code_context\<close>: the files the human fix changed, as they are in the working tree.
  Reading, cutting to the byte budget and decoding a file (\<open>read_file_bytes\<close>) is one
  answer of the collaborator.
\<close>

fun load_files ::
  "world \<Rightarrow> Config \<Rightarrow> string list \<Rightarrow> (string \<times> string) list \<Rightarrow> 'a orchestrator_scheme \<Rightarrow>
     (string \<times> string) list \<times> 'a orchestrator_scheme" where
  "load_files w cfg [] ctx st = (ctx, st)"
| "load_files w cfg (rel # rels) ctx st =
     (let ex = path_exists w (trace st) rel;
          st1 = st\<lparr>trace := trace st @ [Exists rel ex]\<rparr>
      in if \<not> ex then load_files w cfg rels ctx st1
         else (let text = file_text w (trace st1) rel (max_context_bytes_per_file cfg);
                   st2 = st1\<lparr>trace := trace st1 @ [ReadFile rel text]\<rparr>
               in load_files w cfg rels (AList.update rel text ctx) st2))"

definition load_code_context ::
  "world \<Rightarrow> Config \<Rightarrow> BugScenario \<Rightarrow> 'a orchestrator_scheme \<Rightarrow>
     (string \<times> string) list \<times> 'a orchestrator_scheme" where
  "load_code_context w cfg sc st = load_files w cfg (files_changed sc) [] st"

definition write_log ::
  "Config \<Rightarrow> BugScenario \<Rightarrow> log_entry list \<Rightarrow> 'a orchestrator_scheme \<Rightarrow> 'a orchestrator_scheme" where
  "write_log cfg sc content st =
     st\<lparr>trace := trace st @
        [WroteLog (logs_dir cfg)
           (take 10 (parent_commit sc) @ ''_'' @ take 10 (fix_commit sc) @ ''.md'') content]\<rparr>"

text \<open>
  One pass of the first attempt loop. The flag says whether the pass ended in \<open>break\<close>.
\<close>

definition initial_attempt :: "world \<Rightarrow> Config \<Rightarrow> BugScenario \<Rightarrow> int \<Rightarrow> run \<Rightarrow> run \<times> bool" where
  "initial_attempt w cfg sc attempt st0 =
     (case propose_patch w cfg sc (failing_info st0) (code_ctx st0) (st0\<lparr>attempts := attempt\<rparr>) of
        (resp, st1) \<Rightarrow>
          (let proposed = strip resp;
               st2 = st1\<lparr>last_agent_diff := proposed\<rparr>
           in if \<not> looks_like_diff proposed then (st2, False)
              else (case approval w cfg st2 of
                      (approved, st3) \<Rightarrow>
                        if \<not> approved then (st3, False)
                        else (case apply_unified_diff_with_git w proposed (ensure_clean_worktree w st3) of
                                (ok, st4) \<Rightarrow>
                                  if \<not> ok then (st4, False)
                                  else (case run_tests w cfg st4 of
                                          ((passed2, out2), st5) \<Rightarrow>
                                            (let st6 = st5\<lparr>log_buf := log_buf st5 @
                                                   [LogAttemptPatch attempt (take 18000 proposed),
                                                    LogAttemptOutput attempt (take 8000 out2)]\<rparr>
                                             in if passed2
                                                then (st6\<lparr>success := True,
                                                          log_buf := log_buf st6 @
                                                            [LogSuccess attempt (fst (count_diff_lines proposed))
                                                               (snd (count_diff_lines proposed))]\<rparr>, True)
                                                else (st6\<lparr>failing_info := out2\<rparr>, False)))))))"

fun initial_attempts :: "world \<Rightarrow> Config \<Rightarrow> BugScenario \<Rightarrow> int list \<Rightarrow> run \<Rightarrow> run" where
  "initial_attempts w cfg sc [] st = st"
| "initial_attempts w cfg sc (attempt # rest) st =
     (case initial_attempt w cfg sc attempt st of
        (st', brk) \<Rightarrow> if brk then st' else initial_attempts w cfg sc rest st')"

text \<open>The merge of the coach's guidelines into the ledger, and its log entry.\<close>

definition merge_guidelines :: "int \<Rightarrow> string list \<Rightarrow> run \<Rightarrow> run" where
  "merge_guidelines refine_round new_guides st =
     (if new_guides = [] then st\<lparr>log_buf := log_buf st @ [LogRefineNone refine_round]\<rparr>
      else (let g = (guidelines st)\<lparr>items := merge_new (items (guidelines st)) new_guides\<rparr>
            in st\<lparr>guidelines := g, files := save g (files st),
                  log_buf := log_buf st @ [LogRefineNew refine_round new_guides]\<rparr>))"

text \<open>One pass of the attempt loop inside a refinement round.\<close>

definition post_refine_attempt ::
  "world \<Rightarrow> Config \<Rightarrow> BugScenario \<Rightarrow> int \<Rightarrow> int \<Rightarrow> run \<Rightarrow> run \<times> bool" where
  "post_refine_attempt w cfg sc refine_round attempt st0 =
     (case propose_patch w cfg sc (failing_info st0) (code_ctx st0) st0 of
        (resp, st1) \<Rightarrow>
          (let proposed = strip resp;
               st2 = st1\<lparr>last_agent_diff := proposed\<rparr>
           in if \<not> looks_like_diff proposed then (st2, False)
              else (case approval w cfg st2 of
                      (approved, st3) \<Rightarrow>
                        if \<not> approved then (st3, False)
                        else (case apply_unified_diff_with_git w proposed (ensure_clean_worktree w st3) of
                                (ok, st4) \<Rightarrow>
                                  if \<not> ok then (st4, False)
                                  else (case run_tests w cfg st4 of
                                          ((passed2, out2), st5) \<Rightarrow>
                                            (let st6 = st5\<lparr>log_buf := log_buf st5 @
                                                   [LogPostAttemptPatch attempt (take 18000 proposed),
                                                    LogPostAttemptOutput attempt (take 8000 out2)]\<rparr>
                                             in if passed2
                                                then (st6\<lparr>success := True,
                                                          log_buf := log_buf st6 @
                                                            [LogSuccessAfterRefine refine_round attempt
                                                               (fst (count_diff_lines proposed))
                                                               (snd (count_diff_lines proposed))]\<rparr>, True)
                                                else (st6, False)))))))"

fun post_refine_attempts ::
  "world \<Rightarrow> Config \<Rightarrow> BugScenario \<Rightarrow> int \<Rightarrow> int list \<Rightarrow> run \<Rightarrow> run" where
  "post_refine_attempts w cfg sc refine_round [] st = st"
| "post_refine_attempts w cfg sc refine_round (attempt # rest) st =
     (case post_refine_attempt w cfg sc refine_round attempt st of
        (st', brk) \<Rightarrow> if brk then st' else post_refine_attempts w cfg sc refine_round rest st')"

text \<open>One refinement round; the flag says whether it ended in \<open>break\<close>.\<close>

definition refinement_round :: "world \<Rightarrow> Config \<Rightarrow> BugScenario \<Rightarrow> int \<Rightarrow> run \<Rightarrow> run \<times> bool" where
  "refinement_round w cfg sc refine_round st0 =
     (case refine w cfg sc (last_agent_diff st0) (failing_info st0) (as_bullets (guidelines st0)) st0 of
        (new_guides, st1) \<Rightarrow>
          (case git_checkout_detached w (parent_commit sc) (merge_guidelines refine_round new_guides st1) of
             (Some e, st2) \<Rightarrow> (st2, True)
           | (None, st2) \<Rightarrow>
               (case run_tests w cfg st2 of
                  ((passed, out), st3) \<Rightarrow>
                    if passed then (st3\<lparr>log_buf := log_buf st3 @ [LogBaselinePasses]\<rparr>, True)
                    else (case load_code_context w cfg sc st3 of
                            (ctx, st4) \<Rightarrow>
                              (let st5 = post_refine_attempts w cfg sc refine_round
                                           [1 .. max_fix_attempts_per_bug cfg]
                                           (st4\<lparr>failing_info := out, code_ctx := ctx,
                                                last_agent_diff := [], success := False\<rparr>)
                               in if success st5 then (st5\<lparr>refine_success := True\<rparr>, True)
                                  else (st5, False))))))"

fun refinement_loop :: "world \<Rightarrow> Config \<Rightarrow> BugScenario \<Rightarrow> int list \<Rightarrow> run \<Rightarrow> run" where
  "refinement_loop w cfg sc [] st = st"
| "refinement_loop w cfg sc (refine_round # rest) st =
     (case refinement_round w cfg sc refine_round st of
        (st', brk) \<Rightarrow> if brk then st' else refinement_loop w cfg sc rest st')"

text \<open>What is left of a scenario's run when the scenario is over.\<close>

definition finish :: "run \<Rightarrow> orchestrator" where
  "finish st = \<lparr>trace = trace st, guidelines = guidelines st, files = files st\<rparr>"

text \<open>The body of the loop over the scenarios.\<close>

definition process_scenario :: "world \<Rightarrow> Config \<Rightarrow> BugScenario \<Rightarrow> orchestrator \<Rightarrow> orchestrator" where
  "process_scenario w cfg sc st0 =
     (case git_checkout_detached w (parent_commit sc) st0 of
        (Some e, st1) \<Rightarrow> st1
      | (None, st1) \<Rightarrow>
          (case run_tests w cfg st1 of
             ((passed, out), st2) \<Rightarrow>
               if passed then st2
               else (case load_code_context w cfg sc st2 of
                       (ctx, st3) \<Rightarrow>
                         (let st4 = initial_attempts w cfg sc [1 .. max_fix_attempts_per_bug cfg]
                                      \<lparr>trace = trace st3, guidelines = guidelines st3, files = files st3,
                                       failing_info = out, code_ctx = ctx,
                                       log_buf = [LogHeader (subject sc) (parent_commit sc) (fix_commit sc)
                                                    (files_changed sc),
                                                  LogBaseline (take 8000 out)],
                                       success = False, attempts = 0, last_agent_diff = [],
                                       refine_success = False\<rparr>
                          in if success st4 then finish (write_log cfg sc (log_buf st4) st4)
                             else (let st5 = refinement_loop w cfg sc
                                               [1 .. max_refine_iterations_per_bug cfg] st4;
                                       st6 = (if \<not> (success st5 \<or> refine_success st5)
                                              then st5\<lparr>log_buf := log_buf st5 @ [LogFailed]\<rparr>
                                              else st5)
                                   in finish (write_log cfg sc (log_buf st6) st6))))))"

fun loop_over_bug_scenarios :: "world \<Rightarrow> Config \<Rightarrow> BugScenario list \<Rightarrow> orchestrator \<Rightarrow> orchestrator" where
  "loop_over_bug_scenarios w cfg [] st = st"
| "loop_over_bug_scenarios w cfg (sc # scs) st =
     loop_over_bug_scenarios w cfg scs (process_scenario w cfg sc st)"

text \<open>\<open>Orchestrator.__init__\<close>: the ledger is loaded from its file.\<close>

definition new_orchestrator :: "Config \<Rightarrow> files \<Rightarrow> orchestrator" where
  "new_orchestrator cfg fs =
     \<lparr>trace = [], guidelines = load \<lparr>path = guidelines_file cfg, items = []\<rparr> fs, files = fs\<rparr>"

section \<open>Reading a trace\<close>

text \<open>The kinds of events the properties below speak about.\<close>

fun is_checkout :: "event \<Rightarrow> bool" where
  "is_checkout (Ran (GitCheckout c) r) = True"
| "is_checkout _ = False"

fun ok_checkout :: "event \<Rightarrow> bool" where
  "ok_checkout (Ran (GitCheckout c) r) = (fst r = 0)"
| "ok_checkout _ = False"

fun is_apply :: "event \<Rightarrow> bool" where
  "is_apply (Ran (GitApply d) r) = True"
| "is_apply _ = False"

fun is_patching :: "event \<Rightarrow> bool" where
  "is_patching (Ran (GitApply d) r) = True"
| "is_patching (Ran (GitApplyReject d) r) = True"
| "is_patching _ = False"

fun is_propose :: "event \<Rightarrow> bool" where
  "is_propose (Completed (PatchRequest g p f fs r c m) t) = True"
| "is_propose _ = False"

fun is_coach :: "event \<Rightarrow> bool" where
  "is_coach (Completed (GuidelineRequest r l h g m) t) = True"
| "is_coach _ = False"

fun is_test :: "event \<Rightarrow> bool" where
  "is_test (Ran (TestCommand t env) r) = True"
| "is_test _ = False"

fun passed :: "event \<Rightarrow> bool" where
  "passed (Ran (TestCommand t env) r) = (fst r = 0)"
| "passed _ = False"

fun is_log :: "event \<Rightarrow> bool" where
  "is_log (WroteLog d n es) = True"
| "is_log _ = False"

fun is_read :: "event \<Rightarrow> bool" where
  "is_read (Exists f b) = True"
| "is_read (ReadFile f t) = True"
| "is_read _ = False"

text \<open>What a run added to the trace.\<close>

definition new_events :: "'a orchestrator_scheme \<Rightarrow> 'b orchestrator_scheme \<Rightarrow> event list" where
  "new_events st st' = drop (length (trace st)) (trace st')"

text \<open>The events of an approval: none when no approval is required, else the answer.\<close>

definition asks :: "event list \<Rightarrow> bool" where
  "asks as = (as = [] \<or> (\<exists>a. as = [Asked a]))"

text \<open>The events of a patch application that succeeded, at once or on the retry.\<close>

definition applied :: "string \<Rightarrow> event list \<Rightarrow> bool" where
  "applied d ap = ((\<exists>r. ap = [Ran (GitApply d) r] \<and> fst r = 0) \<or>
     (\<exists>r r'. ap = [Ran (GitApply d) r, Ran (GitApplyReject d) r'] \<and> fst r \<noteq> 0 \<and> fst r' = 0))"

text \<open>The output \<open>run_tests\<close> returns for a result of the test command.\<close>

definition test_output :: "result \<Rightarrow> string" where
  "test_output t = fst (snd t) @ (if snd (snd t) \<noteq> [] then LF # snd (snd t) else [])"

abbreviation test_cmd :: "Config \<Rightarrow> cmd" where
  "test_cmd cfg \<equiv> TestCommand (test_command cfg) (node_env cfg)"

abbreviation patch_request :: "Config \<Rightarrow> BugScenario \<Rightarrow> run \<Rightarrow> llm_request" where
  "patch_request cfg sc st \<equiv>
     PatchRequest (as_bullets (guidelines st)) (parent_commit sc) (fix_commit sc) (files_changed sc)
       (failing_info st) (code_ctx st) (llm_model_bug_fixer cfg)"

text \<open>The conditional append both parsers of the coach's answer use.\<close>

definition add_new :: "string list \<Rightarrow> string \<Rightarrow> string list" where
  "add_new acc s = (if s \<noteq> [] \<and> s \<notin> set acc then acc @ [s] else acc)"

text \<open>
  The events of one attempt, in either attempt loop: the proposal; the answer at the
  approval prompt when approval is required; and, when the proposal has the shape of a
  diff and is approved, the reset, the clean and the application of the patch, followed
  by the test run when the patch applied.
\<close>

definition attempt_events :: "event list \<Rightarrow> bool" where
  "attempt_events es =
     (\<exists>q resp as. is_propose (Completed q resp) \<and> asks as \<and>
        (es = Completed q resp # as \<or>
         (\<exists>r1 r2 d x x'. fst x \<noteq> 0 \<and> fst x' \<noteq> 0 \<and>
            es = Completed q resp # as @
                 [Ran GitResetHard r1, Ran GitClean r2, Ran (GitApply d) x, Ran (GitApplyReject d) x']) \<or>
         (\<exists>r1 r2 d ap t env res. applied d ap \<and>
            es = Completed q resp # as @ [Ran GitResetHard r1, Ran GitClean r2] @ ap @
                 [Ran (TestCommand t env) res])))"

text \<open>
  Where an event stands, given the events before it (the latest first). \<open>head_at p\<close>: the
  last checkout succeeded and was of \<open>p\<close>. \<open>unpatched p\<close>: moreover no patch was applied
  since. \<open>clean_at p\<close>: the last two commands were \<open>git reset --hard\<close> and
  \<open>git clean -fd\<close>, at the commit \<open>p\<close>.
\<close>

fun head_at :: "string \<Rightarrow> event list \<Rightarrow> bool" where
  "head_at p [] = False"
| "head_at p (Ran (GitCheckout c) res # r) = (c = p \<and> fst res = 0)"
| "head_at p (e # r) = head_at p r"

fun unpatched :: "string \<Rightarrow> event list \<Rightarrow> bool" where
  "unpatched p [] = False"
| "unpatched p (Ran (GitCheckout c) res # r) = (c = p \<and> fst res = 0)"
| "unpatched p (Ran (GitApply d) res # r) = False"
| "unpatched p (Ran (GitApplyReject d) res # r) = False"
| "unpatched p (e # r) = unpatched p r"

fun clean_at :: "string \<Rightarrow> event list \<Rightarrow> bool" where
  "clean_at p (Ran GitClean r2 # Ran GitResetHard r1 # r) = head_at p r"
| "clean_at p r = False"

text \<open>
  \<open>well_placed p r e\<close>: the event \<open>e\<close> may follow the history \<open>r\<close> in a scenario whose buggy
  parent is \<open>p\<close>.
  \<^item> \<open>git apply\<close> comes right after reset and clean at \<open>p\<close>;
  \<^item> \<open>git apply --reject\<close> comes right after the failed \<open>git apply\<close> of the same patch;
  \<^item> the test command runs right after the successful checkout of \<open>p\<close>, or right after
    the application of one patch that succeeded (at once or on the retry) on the clean
    tree;
  \<^item> a file of the working tree is looked at only while no patch has been applied since
    the checkout of \<open>p\<close>.
\<close>

fun patched_once :: "string \<Rightarrow> event list \<Rightarrow> bool" where
  "patched_once p (Ran (GitApply d) res # r) = (fst res = 0 \<and> clean_at p r)"
| "patched_once p (Ran (GitApplyReject d) res # Ran (GitApply d') res' # r) =
     (fst res = 0 \<and> d' = d \<and> fst res' \<noteq> 0 \<and> clean_at p r)"
| "patched_once p r = False"

fun well_placed :: "string \<Rightarrow> event list \<Rightarrow> event \<Rightarrow> bool" where
  "well_placed p r (Ran (GitApply d) res) = clean_at p r"
| "well_placed p r (Ran (GitApplyReject d) res) =
     (case r of Ran (GitApply d') res' # r' \<Rightarrow> d' = d \<and> fst res' \<noteq> 0 \<and> clean_at p r' | _ \<Rightarrow> False)"
| "well_placed p r (Ran (TestCommand t env) res) =
     ((case r of Ran (GitCheckout c) res' # r' \<Rightarrow> c = p \<and> fst res' = 0 | _ \<Rightarrow> False) \<or>
      patched_once p r)"
| "well_placed p r (Exists f b) = unpatched p r"
| "well_placed p r (ReadFile f t) = unpatched p r"
| "well_placed p r e = True"

fun placed :: "string \<Rightarrow> event list \<Rightarrow> event list \<Rightarrow> bool" where
  "placed p r [] = True"
| "placed p r (e # es) = (well_placed p r e \<and> placed p (e # r) es)"

text \<open>The entries that report a success.\<close>

fun is_success_entry :: "log_entry \<Rightarrow> bool" where
  "is_success_entry (LogSuccess n a b) = True"
| "is_success_entry (LogSuccessAfterRefine r n a b) = True"
| "is_success_entry _ = False"

definition no_success :: "log_entry list \<Rightarrow> bool" where
  "no_success l = list_all (\<lambda>e. \<not> is_success_entry e) l"

text \<open>
  A checkout that is directly followed by a passing test run: \<open>has_anomaly\<close> says that
  a trace holds one, \<open>followed_by t\<close> that each one in the trace is followed by exactly
  the events \<open>t\<close>.
\<close>

fun has_anomaly :: "event list \<Rightarrow> bool" where
  "has_anomaly (a # b # es) = ((is_checkout a \<and> passed b) \<or> has_anomaly (b # es))"
| "has_anomaly es = False"

fun followed_by :: "event list \<Rightarrow> event list \<Rightarrow> bool" where
  "followed_by t (a # b # es) = ((\<not> (is_checkout a \<and> passed b) \<or> es = t) \<and> followed_by t (b # es))"
| "followed_by t es = True"

text \<open>The name of a scenario's log file, and the scenario's first log entries.\<close>

definition log_name :: "BugScenario \<Rightarrow> string" where
  "log_name sc = take 10 (parent_commit sc) @ ''_'' @ take 10 (fix_commit sc) @ ''.md''"

definition log_start :: "BugScenario \<Rightarrow> string \<Rightarrow> log_entry list" where
  "log_start sc out =
     [LogHeader (subject sc) (parent_commit sc) (fix_commit sc) (files_changed sc),
      LogBaseline (take 8000 out)]"

text \<open>
  \<open>baseline_first p es\<close>: the trace \<open>es\<close> of a scenario starts with the reset, the clean,
  the successful checkout of \<open>p\<close> and a run of the test command, in this order. The test
  run is then the event \<open>es ! 3\<close>.
\<close>

fun is_reset :: "event \<Rightarrow> bool" where
  "is_reset (Ran GitResetHard r) = True"
| "is_reset _ = False"

fun is_clean :: "event \<Rightarrow> bool" where
  "is_clean (Ran GitClean r) = True"
| "is_clean _ = False"

fun checkout_of :: "string \<Rightarrow> event \<Rightarrow> bool" where
  "checkout_of p (Ran (GitCheckout c) r) = (c = p \<and> fst r = 0)"
| "checkout_of p _ = False"

definition baseline_first :: "string \<Rightarrow> event list \<Rightarrow> bool" where
  "baseline_first p es =
     (4 \<le> length es \<and> is_reset (es ! 0) \<and> is_clean (es ! 1) \<and> checkout_of p (es ! 2) \<and>
      is_test (es ! 3))"

definition is_llm :: "event \<Rightarrow> bool" where
  "is_llm e = (is_propose e \<or> is_coach e)"

fun failed_checkout :: "event \<Rightarrow> bool" where
  "failed_checkout (Ran (GitCheckout c) r) = (fst r \<noteq> 0)"
| "failed_checkout _ = False"

section \<open>What the loops do, as predicates\<close>

text \<open>The ledger's file holds the ledger.\<close>

definition in_sync :: "run \<Rightarrow> bool" where
  "in_sync st = (files st (path (guidelines st)) = Some (header @ bullet_list (items (guidelines st))))"

abbreviation coach_request :: "Config \<Rightarrow> BugScenario \<Rightarrow> run \<Rightarrow> llm_request" where
  "coach_request cfg sc st \<equiv>
     GuidelineRequest (failing_info st) (last_agent_diff st) (human_diff sc)
       (as_bullets (guidelines st)) (llm_model_refiner cfg)"

text \<open>
  An attempt loop adds the events of its attempts, one attempt after the other; it makes
  every attempt of its list unless a test run passes.
\<close>

definition attempts_run :: "int list \<Rightarrow> run \<Rightarrow> run \<Rightarrow> event list list \<Rightarrow> bool" where
  "attempts_run ns st st' ess =
     (trace st' = trace st @ concat ess \<and> list_all attempt_events ess \<and> length ess \<le> length ns \<and>
      (\<not> list_ex passed (concat ess) \<longrightarrow> length ess = length ns) \<and>
      guidelines st' = guidelines st \<and> files st' = files st \<and> refine_success st' = refine_success st \<and>
      success st' = (success st \<or> list_ex passed (concat ess)) \<and>
      (no_success (log_buf st) \<longrightarrow> \<not> list_ex passed (concat ess) \<longrightarrow> no_success (log_buf st')))"

text \<open>What one refinement round does: its events, whether it ends in \<open>break\<close>, and what it leaves of the flags and the log.\<close>

definition round_run :: "Config \<Rightarrow> BugScenario \<Rightarrow> run \<Rightarrow> run \<Rightarrow> bool \<Rightarrow> bool" where
  "round_run cfg sc st st' brk =
     (trace st' = trace st @ new_events st st' \<and>
      (\<forall>e \<in> set (new_events st st'). \<not> is_log e) \<and>
      new_events st st' \<noteq> [] \<and> is_coach (hd (new_events st st')) \<and>
      placed (parent_commit sc) (rev (trace st)) (new_events st st') \<and>
      ((\<forall>e \<in> set (new_events st st'). is_checkout e \<longrightarrow> ok_checkout e) \<and>
       \<not> list_ex passed (new_events st st') \<longrightarrow>
         \<not> brk \<and> length (filter is_propose (new_events st st')) = nat (max_fix_attempts_per_bug cfg)) \<and>
      followed_by [] (new_events st st') \<and>
      (has_anomaly (new_events st st') \<longrightarrow> brk) \<and>
      (\<not> brk \<longrightarrow> \<not> is_checkout (last (new_events st st'))) \<and>
      (\<not> success st \<and> \<not> refine_success st \<and> no_success (log_buf st) \<longrightarrow>
         (has_anomaly (new_events st st') \<or> \<not> brk) \<longrightarrow>
         \<not> success st' \<and> \<not> refine_success st' \<and> no_success (log_buf st')))"

text \<open>What the refinement loop does, over the rounds \<open>rs\<close>.\<close>

definition rounds_run :: "Config \<Rightarrow> BugScenario \<Rightarrow> int list \<Rightarrow> run \<Rightarrow> run \<Rightarrow> bool" where
  "rounds_run cfg sc rs st st' =
     (trace st' = trace st @ new_events st st' \<and>
      (\<forall>e \<in> set (new_events st st'). \<not> is_log e) \<and>
      (new_events st st' = [] \<or> is_coach (hd (new_events st st'))) \<and>
      placed (parent_commit sc) (rev (trace st)) (new_events st st') \<and>
      ((\<forall>e \<in> set (new_events st st'). is_checkout e \<longrightarrow> ok_checkout e) \<and>
       \<not> list_ex passed (new_events st st') \<longrightarrow>
         length (filter is_propose (new_events st st')) =
           length rs * nat (max_fix_attempts_per_bug cfg)) \<and>
      followed_by [] (new_events st st') \<and>
      (\<not> success st \<and> \<not> refine_success st \<and> no_success (log_buf st) \<longrightarrow>
         has_anomaly (new_events st st') \<longrightarrow>
         \<not> success st' \<and> \<not> refine_success st' \<and> no_success (log_buf st')))"

text \<open>
  A scenario enters the repair loop when its trace starts with the successful checkout
  and a failing baseline run.
\<close>

definition entered_repair :: "string \<Rightarrow> event list \<Rightarrow> bool" where
  "entered_repair p es = (baseline_first p es \<and> \<not> passed (es ! 3))"

text \<open>
  The shape of a diff as the specification words it, to be compared with
  \<open>looks_like_diff\<close>: the response holds a line in which \<open>diff --git\<close> occurs, or a line
  that starts with \<open>---\<close>.
\<close>

fun occurs_in :: "string \<Rightarrow> string \<Rightarrow> bool" where
  "occurs_in p [] = (p = [])"
| "occurs_in p (c # cs) = (startswith (c # cs) p \<or> occurs_in p cs)"

definition spec_diff_marker :: "string \<Rightarrow> bool" where
  "spec_diff_marker resp =
     list_ex (\<lambda>l. occurs_in ''diff --git'' l \<or> startswith l ''---'') (splitlines resp)"

section \<open>Example runs\<close>

text \<open>
  Worlds for the examples. Git's commands succeed unless said otherwise; the test
  command, the proposer and the coach are given.
\<close>

definition example_world ::
  "(event list \<Rightarrow> cmd \<Rightarrow> result) \<Rightarrow> llm_client \<Rightarrow> llm_client \<Rightarrow> world" where
  "example_world git bug coach =
     \<lparr>subprocess = git, llm_bug = bug, llm_ref = coach, stdin = (\<lambda>h. ''y''),
      path_exists = (\<lambda>h p. True), file_text = (\<lambda>h p n. ''export const a = 1''),
      json_loads = (\<lambda>s. None)\<rparr>"

text \<open>The checkout fails.\<close>

definition no_checkout_world :: world where
  "no_checkout_world =
     example_world (\<lambda>h c. case c of GitCheckout x \<Rightarrow> (1, [], ''fatal: reference is not a tree'')
                                   | _ \<Rightarrow> (0, [], []))
       (ClaudeClient None) (ClaudeClient None)"

text \<open>Every command succeeds, the test command too.\<close>

definition passing_world :: world where
  "passing_world = example_world (\<lambda>h c. (0, [], [])) (ClaudeClient None) (ClaudeClient None)"

text \<open>The tests always fail, and there is no SDK: every answer is the placeholder.\<close>

definition failing_world :: world where
  "failing_world =
     example_world (\<lambda>h c. case c of TestCommand t env \<Rightarrow> (1, ''FAIL src/a.test.ts'', [])
                                   | _ \<Rightarrow> (0, [], []))
       (ClaudeClient None) (ClaudeClient None)"

text \<open>
  The tests fail until the coach has been called, and pass from then on; there is no
  SDK for the proposer.
\<close>

definition anomalous_world :: world where
  "anomalous_world =
     example_world (\<lambda>h c. case c of
                             TestCommand t env \<Rightarrow>
                               (if list_ex is_coach h then (0, ''PASS'', []) else (1, ''FAIL src/a.test.ts'', []))
                           | _ \<Rightarrow> (0, [], []))
       (ClaudeClient None) (ClaudeClient (Some (\<lambda>h req. ''- Check for null before use'')))"

text \<open>
  The proposer answers a patch; the patch applies, and the tests pass on the patched
  tree only.
\<close>

definition fixing_world :: world where
  "fixing_world =
     example_world (\<lambda>h c. case c of
                             TestCommand t env \<Rightarrow>
                               (if h \<noteq> [] \<and> is_apply (last h) then (0, ''PASS'', [])
                                else (1, ''FAIL src/a.test.ts'', []))
                           | _ \<Rightarrow> (0, [], []))
       (ClaudeClient (Some (\<lambda>h req. ''--- a/src/a.ts''))) (ClaudeClient None)"

definition example_cfg :: "int \<Rightarrow> int \<Rightarrow> Config" where
  "example_cfg max_attempts max_refines =
     \<lparr>repo_path = ''/repo'', limit_commits = 100, test_command = ''npm test --silent -- --ci'',
      node_env = [(''CI'', ''1'')], max_fix_attempts_per_bug = max_attempts,
      max_refine_iterations_per_bug = max_refines, logs_dir = ''agent_logs'',
      guidelines_file = ''prompt_guidelines.md'', llm_model_bug_fixer = ''model'',
      llm_model_refiner = ''model'', require_approval = False,
      max_context_bytes_per_file = 60000, bugfix_grep = [''fix'', ''bug'']\<rparr>"

definition example_scenario :: BugScenario where
  "example_scenario =
     \<lparr>parent_commit = ''0123456789abcdef'', fix_commit = ''fedcba9876543210'',
      subject = ''fix: null check'', files_changed = [], human_diff = ''--- a/src/a.ts''\<rparr>"

definition example_start :: orchestrator where
  "example_start =
     \<lparr>trace = [], guidelines = \<lparr>path = ''prompt_guidelines.md'', items = []\<rparr>, files = Map.empty\<rparr>"

text \<open>The requests and results that occur in the example runs.\<close>

abbreviation exit_ok :: result where
  "exit_ok \<equiv> (0, [], [])"

abbreviation tests_fail :: result where
  "tests_fail \<equiv> (1, ''FAIL src/a.test.ts'', [])"

abbreviation tests_pass :: result where
  "tests_pass \<equiv> (0, ''PASS'', [])"

abbreviation example_test :: cmd where
  "example_test \<equiv> TestCommand ''npm test --silent -- --ci'' [(''CI'', ''1'')]"

definition example_proposal :: "string list \<Rightarrow> llm_request" where
  "example_proposal its =
     PatchRequest (as_bullets \<lparr>path = ''prompt_guidelines.md'', items = its\<rparr>)
       ''0123456789abcdef'' ''fedcba9876543210'' [] ''FAIL src/a.test.ts'' [] ''model''"

definition example_coaching :: "string \<Rightarrow> llm_request" where
  "example_coaching last_diff =
     GuidelineRequest ''FAIL src/a.test.ts'' last_diff ''--- a/src/a.ts''
       (as_bullets \<lparr>path = ''prompt_guidelines.md'', items = []\<rparr>) ''model''"

definition example_log_start :: "log_entry list" where
  "example_log_start =
     [LogHeader ''fix: null check'' ''0123456789abcdef'' ''fedcba9876543210'' [],
      LogBaseline ''FAIL src/a.test.ts'']"

text \<open>A state of the attempt loop in the run in which there is no SDK.\<close>

definition example_run :: run where
  "example_run =
     \<lparr>trace = [Ran GitResetHard exit_ok, Ran GitClean exit_ok,
               Ran (GitCheckout ''0123456789abcdef'') exit_ok, Ran example_test tests_fail],
      guidelines = \<lparr>path = ''prompt_guidelines.md'', items = []\<rparr>, files = Map.empty,
      failing_info = ''FAIL src/a.test.ts'', code_ctx = [], log_buf = example_log_start,
      success = False, attempts = 0, last_agent_diff = [], refine_success = False\<rparr>"

text \<open>A state whose ledger holds one guideline.\<close>

definition ledger_example :: run where
  "ledger_example =
     \<lparr>trace = [], guidelines = \<lparr>path = ''prompt_guidelines.md'', items = [''Keep diffs small'']\<rparr>,
      files = Map.empty, failing_info = [], code_ctx = [], log_buf = [], success = False,
      attempts = 0, last_agent_diff = [], refine_success = False\<rparr>"

text \<open>
  Three services for the coach: one answers a JSON array (decoded by the \<open>json_loads\<close>
  given with it), one answers bullet lines, one answers prose.
\<close>

definition coach_world :: "string \<Rightarrow> (string \<Rightarrow> json option) \<Rightarrow> world" where
  "coach_world answer loads =
     \<lparr>subprocess = (\<lambda>h c. (0, [], [])), llm_bug = ClaudeClient None,
      llm_ref = ClaudeClient (Some (\<lambda>h req. answer)), stdin = (\<lambda>h. []),
      path_exists = (\<lambda>h p. False), file_text = (\<lambda>h p n. []), json_loads = loads\<rparr>"

definition coach_cfg :: Config where
  "coach_cfg =
     \<lparr>repo_path = ''/repo'', limit_commits = 100, test_command = ''npm test --silent -- --ci'',
      node_env = [(''CI'', ''1'')], max_fix_attempts_per_bug = 3,
      max_refine_iterations_per_bug = 10, logs_dir = ''agent_logs'',
      guidelines_file = ''prompt_guidelines.md'', llm_model_bug_fixer = ''model'',
      llm_model_refiner = ''model'', require_approval = False,
      max_context_bytes_per_file = 60000, bugfix_grep = [''fix'', ''bug'']\<rparr>"

definition coach_scenario :: BugScenario where
  "coach_scenario =
     \<lparr>parent_commit = ''0123456789abcdef'', fix_commit = ''fedcba9876543210'',
      subject = ''fix: null check'', files_changed = [''src/a.ts''], human_diff = ''--- a/src/a.ts''\<rparr>"

definition coach_state :: orchestrator where
  "coach_state = \<lparr>trace = [], guidelines = \<lparr>path = ''prompt_guidelines.md'', items = []\<rparr>, files = Map.empty\<rparr>"

text \<open>A repository whose \<open>git log\<close> prints the given commits, and whose diffs are empty.\<close>

definition log_world :: "commit list \<Rightarrow> world" where
  "log_world cs =
     \<lparr>subprocess = (\<lambda>h c. case c of GitLog n terms \<Rightarrow> (0, git_log_output cs, []) | _ \<Rightarrow> (0, [], [])),
      llm_bug = ClaudeClient None, llm_ref = ClaudeClient None, stdin = (\<lambda>h. []),
      path_exists = (\<lambda>h p. False), file_text = (\<lambda>h p n. []), json_loads = (\<lambda>s. None)\<rparr>"

text \<open>The proposer answers the given text, and every command succeeds.\<close>

definition answering_world :: "string \<Rightarrow> world" where
  "answering_world answer =
     example_world (\<lambda>h c. (0, [], [])) (ClaudeClient (Some (\<lambda>h req. answer))) (ClaudeClient None)"

text \<open>
  Two answers in which no line starts with \<open>---\<close> and \<open>diff --git\<close> does not occur: a
  diff header that is indented, and \<open>diff\<close> and \<open>--git\<close> on two lines.
\<close>

definition indented_answer :: string where
  "indented_answer = ''Patch:'' @ [LF] @ ''  --- a/src/a.ts''"

definition broken_answer :: string where
  "broken_answer = ''diff'' @ [LF] @ ''--git a/src/a.ts''"

text \<open>An answer that is prose.\<close>

definition prose_answer :: string where
  "prose_answer = ''I cannot fix this.''"

section \<open>Facts about strings\<close>

lemma dropWhile_snoc_not: "\<not> P a \<Longrightarrow> dropWhile P (xs @ [a]) = dropWhile P xs @ [a]"
  by (induction xs) auto

lemma strip_Nil_or: "strip s = [] \<or> (\<not> isspace (hd (strip s)) \<and> \<not> isspace (last (strip s)))"
proof (cases "dropWhile isspace s")
  case Nil
  show ?thesis unfolding strip_def Nil by simp
next
  case (Cons a u)
  then have na: "\<not> isspace a" using hd_dropWhile [of isspace s] by auto
  show ?thesis
  proof (cases "dropWhile isspace (rev (a # u))")
    case Nil
    show ?thesis unfolding strip_def Cons Nil by simp
  next
    case c2: (Cons b v)
    then have nb: "\<not> isspace b" using hd_dropWhile [of isspace "rev (a # u)"] by auto
    have "dropWhile isspace (rev u @ [a]) = dropWhile isspace (rev u) @ [a]"
      using na by (rule dropWhile_snoc_not)
    then have "b # v = dropWhile isspace (rev u) @ [a]" using c2 by simp
    then have "last (b # v) = a" by (metis last_snoc)
    then have "hd (rev (b # v)) = a" by (metis hd_rev list.distinct(1))
    moreover have "last (rev (b # v)) = b" by (metis last_rev list.distinct(1) list.sel(1))
    ultimately show ?thesis unfolding strip_def Cons c2 using na nb by simp
  qed
qed

lemma strip_fixed: "t \<noteq> [] \<Longrightarrow> \<not> isspace (hd t) \<Longrightarrow> \<not> isspace (last t) \<Longrightarrow> strip t = t"
proof -
  assume ne: "t \<noteq> []" and h: "\<not> isspace (hd t)" and l: "\<not> isspace (last t)"
  have 1: "dropWhile isspace t = t" using ne h by (cases t) auto
  obtain b v where bv: "rev t = b # v" using ne by (cases "rev t") auto
  then have "b = last t" using ne by (metis hd_rev list.sel(1))
  then have "\<not> isspace b" using l by simp
  then have "dropWhile isspace (b # v) = b # v" by simp
  then have "dropWhile isspace (rev t) = rev t" by (simp only: bv)
  then show ?thesis unfolding strip_def 1 by simp
qed

lemma strip_idem: "strip (strip s) = strip s"
proof (cases "strip s = []")
  case True
  have "strip [] = []" by (simp add: strip_def)
  then show ?thesis by (simp only: True)
next
  case False
  then show ?thesis using strip_Nil_or [of s] strip_fixed [of "strip s"] by blast
qed

lemma strip_not_blank: "strip s \<noteq> [] \<Longrightarrow> \<not> blank (strip s)"
  by (simp add: blank_def strip_idem)

lemma universal_newlines_id: "CR \<notin> set s \<Longrightarrow> universal_newlines s = s"
  by (induction s rule: universal_newlines.induct) auto

lemma split_all_line: "sep \<notin> set l \<Longrightarrow> split_all sep (l @ sep # rest) = l # split_all sep rest"
  by (induction l) auto

lemma findall_bullets_line:
  "LF \<notin> set l \<Longrightarrow> findall_bullets (l @ LF # rest) =
     (if take 2 l = ''- '' \<and> 2 < length l then [drop 2 l] else []) @ findall_bullets rest"
  by (simp add: findall_bullets_def split_all_line)

lemma findall_bullets_Nil: "findall_bullets [] = []"
  by (simp add: findall_bullets_def)

lemma findall_bullet_list:
  "\<forall>it \<in> set its. it \<noteq> [] \<and> LF \<notin> set it \<Longrightarrow> findall_bullets (bullet_list its) = its"
proof (induction its)
  case Nil
  then show ?case by (simp add: bullet_list_def findall_bullets_Nil)
next
  case (Cons it its)
  have "findall_bullets ((''- '' @ it) @ LF # bullet_list its) = [it] @ findall_bullets (bullet_list its)"
    using Cons.prems by (subst findall_bullets_line) auto
  then show ?case using Cons by (simp add: bullet_list_def)
qed

lemma findall_header: "findall_bullets (header @ rest) = findall_bullets rest"
proof -
  define h1 where "h1 = ''# Bug-Fixer Prompt Guidelines (evolving)''"
  define h3 where "h3 = ''These are generalized, non-specific lessons learned. Avoid revealing exact historical fixes.''"
  have n1: "LF \<notin> set h1" and t1: "take 2 h1 \<noteq> ''- ''" by (simp_all add: h1_def)
  have n3: "LF \<notin> set h3" and t3: "take 2 h3 \<noteq> ''- ''" by (simp_all add: h3_def)
  have e: "findall_bullets (LF # r) = findall_bullets r" for r
    using findall_bullets_line [of "[]" r] by simp
  have l1: "findall_bullets (h1 @ LF # r) = findall_bullets r" for r
    using n1 t1 by (simp add: findall_bullets_line)
  have l3: "findall_bullets (h3 @ LF # r) = findall_bullets r" for r
    using n3 t3 by (simp add: findall_bullets_line)
  have "findall_bullets (h1 @ LF # LF # h3 @ LF # LF # rest) = findall_bullets rest"
    by (simp only: l1 l3 e)
  then show ?thesis by (simp add: header_def h1_def h3_def)
qed

section \<open>The ledger: persistence and merging\<close>

text \<open>
  A ledger whose guidelines are single lines without surrounding whitespace comes back
  from its file as it was saved.
\<close>

lemma load_save_single_lines:
  assumes "\<forall>it \<in> set (items g). it \<noteq> [] \<and> strip it = it \<and> LF \<notin> set it \<and> CR \<notin> set it"
  shows "load g (save g fs) = g"
proof -
  have "CR \<notin> set (header @ bullet_list (items g))"
    using assms by (auto simp: header_def bullet_list_def)
  then have "findall_bullets (universal_newlines (header @ bullet_list (items g))) = items g"
    using assms by (simp add: universal_newlines_id findall_header findall_bullet_list)
  moreover have "filter (\<lambda>b. b \<noteq> []) (map strip (items g)) = items g"
    using assms by (induction "items g") (auto simp: filter_id_conv map_idI)
  ultimately show ?thesis by (simp add: load_def save_def)
qed

text \<open>
  The coach's JSON answer may hold a guideline with a line feed inside: \<open>strip\<close> only
  trims the ends, so the guideline reaches the ledger as it is.
\<close>

lemma parse_guidelines_multiline:
  "parse_guidelines (\<lambda>out. Some (JArray [JString (''Check inputs'' @ [LF] @ ''and outputs'')])) out =
     [''Check inputs'' @ [LF] @ ''and outputs'']"
  by (simp add: parse_guidelines_def strip_def isspace_def)

text \<open>
  C5 (save, then load, gives the same sequence of guidelines, for every ledger): the code
  breaks it for a guideline that holds a line feed. The ledger with the one guideline
  \<open>Check inputs\<close>, line feed, \<open>and outputs\<close> is saved as a bullet line followed by a
  line that is no bullet, and loading that file gives the one guideline
  \<open>Check inputs\<close>.
\<close>

theorem save_load_loses_multiline_guideline:
  "load \<lparr>path = ''prompt_guidelines.md'', items = [''Check inputs'' @ [LF] @ ''and outputs'']\<rparr>
     (save \<lparr>path = ''prompt_guidelines.md'', items = [''Check inputs'' @ [LF] @ ''and outputs'']\<rparr> Map.empty) =
   \<lparr>path = ''prompt_guidelines.md'', items = [''Check inputs'']\<rparr>"
  by (simp add: load_def save_def header_def bullet_list_def findall_bullets_def strip_def isspace_def)

lemma merge_new_distinct: "distinct merged \<Longrightarrow> distinct (merge_new merged gs)"
  by (induction gs arbitrary: merged) auto

lemma merge_new_prefix: "prefix merged (merge_new merged gs)"
proof (induction gs arbitrary: merged)
  case Nil
  show ?case by simp
next
  case (Cons g gs)
  have "prefix merged (if g \<in> set merged then merged else merged @ [g])" by simp
  then show ?case using Cons [of "if g \<in> set merged then merged else merged @ [g]"]
    by (metis merge_new.simps(2) prefix_order.trans)
qed

lemma merge_guidelines_path: "path (guidelines (merge_guidelines r gs st)) = path (guidelines st)"
  by (simp add: merge_guidelines_def Let_def)

lemma merge_guidelines_distinct:
  "distinct (items (guidelines st)) \<Longrightarrow> distinct (items (guidelines (merge_guidelines r gs st)))"
  by (simp add: merge_guidelines_def Let_def merge_new_distinct)

lemma merge_guidelines_prefix:
  "prefix (items (guidelines st)) (items (guidelines (merge_guidelines r gs st)))"
  by (simp add: merge_guidelines_def Let_def merge_new_prefix)

lemma merge_guidelines_saved:
  "items (guidelines (merge_guidelines r gs st)) \<noteq> items (guidelines st) \<Longrightarrow>
   in_sync (merge_guidelines r gs st)"
  by (cases "gs = []") (simp_all add: merge_guidelines_def Let_def in_sync_def save_def)

lemma merge_guidelines_in_sync: "in_sync st \<Longrightarrow> in_sync (merge_guidelines r gs st)"
  by (cases "gs = []") (simp_all add: merge_guidelines_def Let_def in_sync_def save_def)

lemma fold_merge_distinct:
  "distinct (items (guidelines st)) \<Longrightarrow>
   distinct (items (guidelines (fold (\<lambda>(r, gs). merge_guidelines r gs) ops st)))"
  by (induction ops arbitrary: st) (auto simp: merge_guidelines_distinct)

lemma fold_merge_prefix:
  "prefix (items (guidelines st)) (items (guidelines (fold (\<lambda>(r, gs). merge_guidelines r gs) ops st)))"
proof (induction ops arbitrary: st)
  case Nil
  show ?case by simp
next
  case (Cons op ops)
  obtain r gs where op: "op = (r, gs)" by (cases op)
  show ?case
    using Cons [of "merge_guidelines r gs st"] merge_guidelines_prefix [of st r gs]
    by (simp add: op)
qed

lemma fold_merge_in_sync:
  "in_sync st \<Longrightarrow> in_sync (fold (\<lambda>(r, gs). merge_guidelines r gs) ops st)"
  by (induction ops arbitrary: st) (auto simp: merge_guidelines_in_sync)

lemma fold_merge_saved:
  "items (guidelines (fold (\<lambda>(r, gs). merge_guidelines r gs) ops st)) \<noteq> items (guidelines st) \<Longrightarrow>
   in_sync (fold (\<lambda>(r, gs). merge_guidelines r gs) ops st)"
proof (induction ops arbitrary: st)
  case Nil
  then show ?case by simp
next
  case (Cons op ops)
  obtain r gs where op: "op = (r, gs)" by (cases op)
  show ?case
  proof (cases "items (guidelines (merge_guidelines r gs st)) = items (guidelines st)")
    case True
    then show ?thesis using Cons.IH [of "merge_guidelines r gs st"] Cons.prems by (simp add: op)
  next
    case False
    then have "in_sync (merge_guidelines r gs st)" by (rule merge_guidelines_saved)
    then show ?thesis using fold_merge_in_sync by (simp add: op)
  qed
qed

text \<open>
  C4. From a ledger without duplicates, any sequence of merges (each with the round
  number it logs and the coach's guidelines) leaves a ledger without duplicates, of
  which the old ledger is a prefix. Every single merge that changes the ledger leaves
  the ledger's file holding the new ledger, and so does the whole sequence.
\<close>

theorem merges_keep_ledger_distinct_and_saved:
  assumes "distinct (items (guidelines st))"
  shows "distinct (items (guidelines (fold (\<lambda>(r, gs). merge_guidelines r gs) ops st))) \<and>
         prefix (items (guidelines st))
           (items (guidelines (fold (\<lambda>(r, gs). merge_guidelines r gs) ops st))) \<and>
         (\<forall>r gs s. items (guidelines (merge_guidelines r gs s)) \<noteq> items (guidelines s) \<longrightarrow>
            in_sync (merge_guidelines r gs s)) \<and>
         (items (guidelines (fold (\<lambda>(r, gs). merge_guidelines r gs) ops st)) \<noteq> items (guidelines st) \<longrightarrow>
            in_sync (fold (\<lambda>(r, gs). merge_guidelines r gs) ops st))"
  using assms fold_merge_distinct fold_merge_prefix merge_guidelines_saved fold_merge_saved
  by blast

theorem merges_keep_ledger_distinct_and_saved_witness:
  "distinct (items (guidelines ledger_example)) \<and>
   items (guidelines (fold (\<lambda>(r, gs). merge_guidelines r gs)
      [(1, [''Check for null'', ''Keep diffs small'']), (2, [])] ledger_example)) =
     [''Keep diffs small'', ''Check for null''] \<and>
   files (fold (\<lambda>(r, gs). merge_guidelines r gs)
      [(1, [''Check for null'', ''Keep diffs small'']), (2, [])] ledger_example) ''prompt_guidelines.md'' =
     Some (header @ ''- Keep diffs small'' @ [LF] @ ''- Check for null'' @ [LF])"
proof -
  have d: "distinct (items (guidelines ledger_example))" by (simp add: ledger_example_def)
  have v: "items (guidelines (fold (\<lambda>(r, gs). merge_guidelines r gs)
      [(1, [''Check for null'', ''Keep diffs small'']), (2, [])] ledger_example)) =
     [''Keep diffs small'', ''Check for null'']"
    by (simp add: ledger_example_def merge_guidelines_def Let_def)
  have p: "path (guidelines (fold (\<lambda>(r, gs). merge_guidelines r gs)
      [(1, [''Check for null'', ''Keep diffs small'']), (2, [])] ledger_example)) = ''prompt_guidelines.md''"
    by (simp add: ledger_example_def merge_guidelines_def Let_def)
  show ?thesis
    using merges_keep_ledger_distinct_and_saved
      [OF d, of "[(1, [''Check for null'', ''Keep diffs small'']), (2, [])]"] d v p
    by (simp add: in_sync_def bullet_list_def ledger_example_def)
qed

section \<open>The coach's answer\<close>

lemma add_new_props:
  assumes "distinct acc" and "\<forall>g \<in> set acc. \<not> blank g"
  shows "distinct (add_new acc (strip t))" and "\<forall>g \<in> set (add_new acc (strip t)). \<not> blank g"
proof -
  show "distinct (add_new acc (strip t))" using assms(1) by (simp add: add_new_def)
  show "\<forall>g \<in> set (add_new acc (strip t)). \<not> blank g"
  proof (cases "strip t \<noteq> [] \<and> strip t \<notin> set acc")
    case True
    then have "\<not> blank (strip t)" using strip_not_blank by blast
    then show ?thesis using assms(2) True by (simp add: add_new_def)
  next
    case False
    then have "add_new acc (strip t) = acc" unfolding add_new_def by (simp only: if_False)
    then show ?thesis using assms(2) by simp
  qed
qed

lemma clean_items_step:
  "clean_items cleaned (JString t # arr) = clean_items (add_new cleaned (strip t)) arr"
  by (simp add: add_new_def Let_def)

lemma clean_items_props:
  "distinct cleaned \<Longrightarrow> \<forall>g \<in> set cleaned. \<not> blank g \<Longrightarrow>
   distinct (clean_items cleaned arr) \<and> (\<forall>g \<in> set (clean_items cleaned arr). \<not> blank g)"
proof (induction arr arbitrary: cleaned)
  case Nil
  then show ?case by simp
next
  case (Cons it arr)
  show ?case
  proof (cases it)
    case (JString t)
    show ?thesis
      unfolding JString clean_items_step
      by (rule Cons.IH) (rule add_new_props [OF Cons.prems])+
  qed (use Cons.IH [of cleaned] Cons.prems in simp_all)
qed

lemma fallback_lines_step:
  "fallback_lines found (line # ls) =
     (case bullet_match line of None \<Rightarrow> fallback_lines found ls
      | Some t \<Rightarrow> fallback_lines (add_new found (strip t)) ls)"
  by (simp add: add_new_def Let_def split: option.splits)

lemma fallback_lines_props:
  "distinct found \<Longrightarrow> \<forall>g \<in> set found. \<not> blank g \<Longrightarrow>
   distinct (fallback_lines found ls) \<and> (\<forall>g \<in> set (fallback_lines found ls). \<not> blank g)"
proof (induction ls arbitrary: found)
  case Nil
  then show ?case by simp
next
  case (Cons line ls)
  show ?case
  proof (cases "bullet_match line")
    case None
    then show ?thesis using Cons.IH [of found] Cons.prems by simp
  next
    case (Some t)
    have "fallback_lines found (line # ls) = fallback_lines (add_new found (strip t)) ls"
      unfolding fallback_lines_step Some by simp
    moreover have "distinct (fallback_lines (add_new found (strip t)) ls) \<and>
        (\<forall>g \<in> set (fallback_lines (add_new found (strip t)) ls). \<not> blank g)"
      by (rule Cons.IH) (rule add_new_props [OF Cons.prems])+
    ultimately show ?thesis by simp
  qed
qed

lemma fallback_lines_no_match:
  "list_all (\<lambda>l. bullet_match l = None) ls \<Longrightarrow> fallback_lines found ls = found"
  by (induction ls arbitrary: found) auto

lemma parse_guidelines_cases:
  obtains (array) arr where "loads out = Some (JArray arr)"
      "parse_guidelines loads out = take 4 (clean_items [] arr)"
    | (fallback) "\<forall>arr. loads out \<noteq> Some (JArray arr)"
      "parse_guidelines loads out = take 4 (fallback_lines [] (splitlines out))"
proof (cases "loads out")
  case None
  then show ?thesis by (intro fallback) (simp_all add: parse_guidelines_def)
next
  case (Some j)
  then show ?thesis
    by (cases j) (simp_all add: parse_guidelines_def array fallback)
qed

lemma parse_guidelines_props:
  "length (parse_guidelines loads out) \<le> 4 \<and> distinct (parse_guidelines loads out) \<and>
   (\<forall>g \<in> set (parse_guidelines loads out). \<not> blank g)"
proof -
  have c: "distinct (clean_items [] arr) \<and> (\<forall>g \<in> set (clean_items [] arr). \<not> blank g)" for arr
    using clean_items_props [of "[]" arr] by simp
  have f: "distinct (fallback_lines [] ls) \<and> (\<forall>g \<in> set (fallback_lines [] ls). \<not> blank g)" for ls
    using fallback_lines_props [of "[]" ls] by simp
  have t: "length (take 4 xs) \<le> 4 \<and> distinct (take 4 xs) \<and> (\<forall>g \<in> set (take 4 xs). \<not> blank g)"
    if "distinct xs \<and> (\<forall>g \<in> set xs. \<not> blank g)" for xs :: "string list"
    using that by (auto dest: in_set_takeD)
  show ?thesis
  proof (cases rule: parse_guidelines_cases [of loads out])
    case (array arr)
    then show ?thesis using t [OF c] by simp
  next
    case fallback
    then show ?thesis using t [OF f] by simp
  qed
qed

lemma refine_fst:
  "fst (refine w cfg sc last_diff failing current st) =
     parse_guidelines (json_loads w)
       (strip (fst (complete (llm_ref w)
          (GuidelineRequest failing last_diff (human_diff sc) current (llm_model_refiner cfg)) st)))"
  by (simp add: refine_def case_prod_beta)

text \<open>
  C8. Whatever the completion service answers, \<open>refine\<close> returns at most four
  guidelines, no two of them equal and none of them blank. When the stripped answer
  decodes to a JSON array, they are the first four of its cleaned strings; otherwise
  they are the first four of the bullet lines of the answer; and an answer that is no
  JSON array and has no bullet line gives the empty list.
\<close>

theorem refine_returns_cleaned_guidelines:
  fixes w :: world and cfg :: Config and sc :: BugScenario
    and last_diff failing current :: string and st :: "'a orchestrator_scheme"
  defines "out \<equiv> strip (fst (complete (llm_ref w)
      (GuidelineRequest failing last_diff (human_diff sc) current (llm_model_refiner cfg)) st))"
  defines "gs \<equiv> fst (refine w cfg sc last_diff failing current st)"
  shows "length gs \<le> 4 \<and> distinct gs \<and> (\<forall>g \<in> set gs. \<not> blank g) \<and>
         (\<forall>arr. json_loads w out = Some (JArray arr) \<longrightarrow> gs = take 4 (clean_items [] arr)) \<and>
         ((\<forall>arr. json_loads w out \<noteq> Some (JArray arr)) \<longrightarrow>
            gs = take 4 (fallback_lines [] (splitlines out))) \<and>
         ((\<forall>arr. json_loads w out \<noteq> Some (JArray arr)) \<and>
          list_all (\<lambda>l. bullet_match l = None) (splitlines out) \<longrightarrow> gs = [])"
proof -
  have gs: "gs = parse_guidelines (json_loads w) out"
    unfolding gs_def out_def by (rule refine_fst)
  have 1: "length gs \<le> 4 \<and> distinct gs \<and> (\<forall>g \<in> set gs. \<not> blank g)"
    unfolding gs by (rule parse_guidelines_props)
  have 2: "\<forall>arr. json_loads w out = Some (JArray arr) \<longrightarrow> gs = take 4 (clean_items [] arr)"
    unfolding gs by (cases rule: parse_guidelines_cases [of "json_loads w" out]) auto
  have 3: "(\<forall>arr. json_loads w out \<noteq> Some (JArray arr)) \<longrightarrow>
      gs = take 4 (fallback_lines [] (splitlines out))"
    unfolding gs by (cases rule: parse_guidelines_cases [of "json_loads w" out]) auto
  have 4: "(\<forall>arr. json_loads w out \<noteq> Some (JArray arr)) \<and>
      list_all (\<lambda>l. bullet_match l = None) (splitlines out) \<longrightarrow> gs = []"
    using 3 by (auto simp: fallback_lines_no_match)
  show ?thesis using 1 2 3 4 by blast
qed

theorem refine_returns_cleaned_guidelines_witness:
  "fst (refine (coach_world '' [1] ''
          (\<lambda>s. if s = ''[1]'' then Some (JArray [JString '' a '', JNumber 1, JString ''a'', JString ''b'',
                                                  JString ''c'', JString ''  '', JString ''d'', JString ''e''])
                else None))
        coach_cfg coach_scenario [] [] [] coach_state) = [''a'', ''b'', ''c'', ''d''] \<and>
   fst (refine (coach_world (''Here:'' @ [LF] @ ''- x'' @ [LF] @ '' * y '' @ [LF] @ ''-z'' @ [LF] @ ''- x'')
          (\<lambda>s. None))
        coach_cfg coach_scenario [] [] [] coach_state) = [''x'', ''y''] \<and>
   fst (refine (coach_world ''I have no idea.'' (\<lambda>s. None))
        coach_cfg coach_scenario [] [] [] coach_state) = []"
proof -
  let ?loads = "\<lambda>s. if s = ''[1]'' then Some (JArray [JString '' a '', JNumber 1, JString ''a'', JString ''b'',
                                                  JString ''c'', JString ''  '', JString ''d'', JString ''e''])
                else None"
  let ?req = "GuidelineRequest [] [] (human_diff coach_scenario) [] (llm_model_refiner coach_cfg)"
  have s1: "strip (fst (complete (llm_ref (coach_world '' [1] '' ?loads)) ?req coach_state)) = ''[1]''"
    by (simp add: coach_world_def complete_def Let_def strip_def isspace_def)
  have j1: "json_loads (coach_world '' [1] '' ?loads) ''[1]'' =
      Some (JArray [JString '' a '', JNumber 1, JString ''a'', JString ''b'',
                    JString ''c'', JString ''  '', JString ''d'', JString ''e''])"
    by (simp add: coach_world_def)
  have "fst (refine (coach_world '' [1] '' ?loads) coach_cfg coach_scenario [] [] [] coach_state) =
      take 4 (clean_items [] [JString '' a '', JNumber 1, JString ''a'', JString ''b'',
                              JString ''c'', JString ''  '', JString ''d'', JString ''e''])"
    using refine_returns_cleaned_guidelines
      [where w = "coach_world '' [1] '' ?loads" and cfg = coach_cfg and sc = coach_scenario and
         last_diff = "[]" and failing = "[]" and current = "[]" and st = coach_state]
    by (simp only: s1 j1; blast)
  also have "\<dots> = [''a'', ''b'', ''c'', ''d'']"
    by (simp add: strip_def isspace_def)
  finally have a: "fst (refine (coach_world '' [1] '' ?loads) coach_cfg coach_scenario [] [] [] coach_state) =
      [''a'', ''b'', ''c'', ''d'']" .
  let ?bul = "''Here:'' @ [LF] @ ''- x'' @ [LF] @ '' * y '' @ [LF] @ ''-z'' @ [LF] @ ''- x''"
  have s2: "strip (fst (complete (llm_ref (coach_world ?bul (\<lambda>s. None))) ?req coach_state)) = ?bul"
    by (simp add: coach_world_def complete_def Let_def strip_def isspace_def)
  have j2: "json_loads (coach_world t (\<lambda>s. None)) = (\<lambda>s. None)" for t
    by (simp add: coach_world_def)
  have "fst (refine (coach_world ?bul (\<lambda>s. None)) coach_cfg coach_scenario [] [] [] coach_state) =
      take 4 (fallback_lines [] (splitlines ?bul))"
    using refine_returns_cleaned_guidelines
      [where w = "coach_world ?bul (\<lambda>s. None)" and cfg = coach_cfg and sc = coach_scenario and
         last_diff = "[]" and failing = "[]" and current = "[]" and st = coach_state]
    by (simp only: s2 j2; blast)
  also have "\<dots> = [''x'', ''y'']"
    by (simp add: splitlines_def is_linebreak_def bullet_match_def strip_def isspace_def)
  finally have b: "fst (refine (coach_world ?bul (\<lambda>s. None)) coach_cfg coach_scenario [] [] [] coach_state) =
      [''x'', ''y'']" .
  have s3: "strip (fst (complete (llm_ref (coach_world ''I have no idea.'' (\<lambda>s. None))) ?req coach_state)) =
      ''I have no idea.''"
    by (simp add: coach_world_def complete_def Let_def strip_def isspace_def)
  have n3: "list_all (\<lambda>l. bullet_match l = None) (splitlines ''I have no idea.'')"
    by (simp add: splitlines_def is_linebreak_def bullet_match_def isspace_def)
  have c: "fst (refine (coach_world ''I have no idea.'' (\<lambda>s. None)) coach_cfg coach_scenario [] [] [] coach_state) = []"
    using refine_returns_cleaned_guidelines
      [where w = "coach_world ''I have no idea.'' (\<lambda>s. None)" and cfg = coach_cfg and sc = coach_scenario and
         last_diff = "[]" and failing = "[]" and current = "[]" and st = coach_state] n3
    by (simp only: s3 j2; blast)
  show ?thesis using a b c by simp
qed

section \<open>Scenario construction\<close>

text \<open>
  C10 (every scenario's buggy parent is the first parent of its fix commit, and a commit
  without parents never becomes a scenario): the code breaks it for a subject that
  holds a bar, because the log line is cut at its first two bars. The root commit
  \<open>c0ffee\<close> with the subject \<open>fix a|b\<close> becomes a scenario whose parent is \<open>b|\<close>, and
  the commit \<open>decade\<close> with the parent \<open>ab12\<close> and the subject \<open>fix x|y\<close> becomes a
  scenario whose parent is \<open>y|ab12\<close>.
\<close>

theorem build_scenarios_cuts_subject_with_bar:
  "fst (build_scenarios
          (log_world [\<lparr>commit_hash = ''c0ffee'', commit_subject = ''fix a|b'', commit_parents = []\<rparr>,
                      \<lparr>commit_hash = ''decade'', commit_subject = ''fix x|y'', commit_parents = [''ab12'']\<rparr>])
          coach_cfg coach_state) =
   Inr [\<lparr>parent_commit = ''b|'', fix_commit = ''c0ffee'', subject = ''fix a'',
          files_changed = [], human_diff = []\<rparr>,
        \<lparr>parent_commit = ''y|ab12'', fix_commit = ''decade'', subject = ''fix x'',
          files_changed = [], human_diff = []\<rparr>]"
  by (simp add: build_scenarios_def detect_bug_fix_commits_def log_world_def run_cmd_def Let_def
      git_log_output_def pretty_line_def splitlines_def is_linebreak_def strip_def isspace_def
      git_diff_name_only_def git_diff_unified_def numeral_2_eq_2)

section \<open>The steps of the orchestrator, one at a time\<close>

lemma run_cmd_E:
  "\<exists>r. run_cmd w c st = (r, st\<lparr>trace := trace st @ [Ran c r]\<rparr>)"
  by (simp add: run_cmd_def Let_def)

lemma ensure_clean_worktree_E:
  "\<exists>r1 r2. ensure_clean_worktree w st = st\<lparr>trace := trace st @ [Ran GitResetHard r1, Ran GitClean r2]\<rparr>"
proof -
  obtain r1 where 1: "run_cmd w GitResetHard st = (r1, st\<lparr>trace := trace st @ [Ran GitResetHard r1]\<rparr>)"
    using run_cmd_E by blast
  obtain r2 where 2: "run_cmd w GitClean (st\<lparr>trace := trace st @ [Ran GitResetHard r1]\<rparr>) =
      (r2, st\<lparr>trace := trace st @ [Ran GitResetHard r1, Ran GitClean r2]\<rparr>)"
    using run_cmd_E [of w GitClean "st\<lparr>trace := trace st @ [Ran GitResetHard r1]\<rparr>"] by auto
  have "ensure_clean_worktree w st = st\<lparr>trace := trace st @ [Ran GitResetHard r1, Ran GitClean r2]\<rparr>"
    by (simp add: ensure_clean_worktree_def 1 2)
  then show ?thesis by blast
qed

lemma git_checkout_detached_E:
  "\<exists>r1 r2 r3. git_checkout_detached w c st =
       (if fst r3 \<noteq> 0 then Some RuntimeError else None,
        st\<lparr>trace := trace st @ [Ran GitResetHard r1, Ran GitClean r2, Ran (GitCheckout c) r3]\<rparr>)"
proof -
  obtain r1 r2 where 1:
    "ensure_clean_worktree w st = st\<lparr>trace := trace st @ [Ran GitResetHard r1, Ran GitClean r2]\<rparr>"
    using ensure_clean_worktree_E by blast
  obtain r3 where 3: "run_cmd w (GitCheckout c) (st\<lparr>trace := trace st @ [Ran GitResetHard r1, Ran GitClean r2]\<rparr>) =
      (r3, st\<lparr>trace := trace st @ [Ran GitResetHard r1, Ran GitClean r2, Ran (GitCheckout c) r3]\<rparr>)"
    using run_cmd_E [of w "GitCheckout c" "st\<lparr>trace := trace st @ [Ran GitResetHard r1, Ran GitClean r2]\<rparr>"]
    by auto
  have "git_checkout_detached w c st =
       (if fst r3 \<noteq> 0 then Some RuntimeError else None,
        st\<lparr>trace := trace st @ [Ran GitResetHard r1, Ran GitClean r2, Ran (GitCheckout c) r3]\<rparr>)"
    by (simp add: git_checkout_detached_def 1 3 case_prod_beta)
  then show ?thesis by blast
qed

lemma run_tests_E:
  "\<exists>t. run_tests w cfg st =
       ((fst t = 0, test_output t), st\<lparr>trace := trace st @ [Ran (test_cmd cfg) t]\<rparr>)"
  by (rule exI [of _ "subprocess w (trace st) (test_cmd cfg)"])
     (simp add: run_tests_def run_cmd_def Let_def case_prod_beta test_output_def)

lemma approval_E:
  "\<exists>as. asks as \<and> approval w cfg st = (fst (approval w cfg st), st\<lparr>trace := trace st @ as\<rparr>) \<and>
     (\<not> fst (approval w cfg st) \<longrightarrow> (\<exists>a. as = [Asked a]))"
proof (cases "require_approval cfg")
  case True
  then show ?thesis
    by (intro exI [of _ "[Asked (stdin w (trace st))]"]) (simp add: approval_def asks_def Let_def)
next
  case False
  then show ?thesis
    by (intro exI [of _ "[]"]) (simp add: approval_def asks_def)
qed

lemma complete_E:
  "\<exists>resp. complete cl req st = (resp, st\<lparr>trace := trace st @ [Completed req resp]\<rparr>)"
  by (simp add: complete_def Let_def)

lemma propose_patch_E:
  fixes st :: run
  shows "\<exists>resp. propose_patch w cfg sc (failing_info st) (code_ctx st) st =
     (resp, st\<lparr>trace := trace st @ [Completed (patch_request cfg sc st) resp]\<rparr>)"
  using complete_E [of "llm_bug w" "patch_request cfg sc st" st] by (simp add: propose_patch_def)

lemma apply_unified_diff_with_git_E:
  obtains (ok) ap where "applied d ap"
      "apply_unified_diff_with_git w d st = (True, st\<lparr>trace := trace st @ ap\<rparr>)"
    | (failed) r r' where "fst r \<noteq> 0" "fst r' \<noteq> 0"
      "apply_unified_diff_with_git w d st =
         (False, st\<lparr>trace := trace st @ [Ran (GitApply d) r, Ran (GitApplyReject d) r']\<rparr>)"
proof -
  obtain r where r: "run_cmd w (GitApply d) st = (r, st\<lparr>trace := trace st @ [Ran (GitApply d) r]\<rparr>)"
    using run_cmd_E by blast
  obtain r' where r': "run_cmd w (GitApplyReject d) (st\<lparr>trace := trace st @ [Ran (GitApply d) r]\<rparr>) =
      (r', st\<lparr>trace := trace st @ [Ran (GitApply d) r, Ran (GitApplyReject d) r']\<rparr>)"
    using run_cmd_E [of w "GitApplyReject d" "st\<lparr>trace := trace st @ [Ran (GitApply d) r]\<rparr>"] by auto
  show ?thesis
  proof (cases "fst r = 0")
    case True
    then have "apply_unified_diff_with_git w d st = (True, st\<lparr>trace := trace st @ [Ran (GitApply d) r]\<rparr>)"
      by (simp add: apply_unified_diff_with_git_def r case_prod_beta)
    moreover have "applied d [Ran (GitApply d) r]" using True by (simp add: applied_def)
    ultimately show ?thesis by (rule ok [rotated])
  next
    case False
    show ?thesis
    proof (cases "fst r' = 0")
      case True
      have "apply_unified_diff_with_git w d st =
          (True, st\<lparr>trace := trace st @ [Ran (GitApply d) r, Ran (GitApplyReject d) r']\<rparr>)"
        using False True by (simp add: apply_unified_diff_with_git_def r r' case_prod_beta)
      moreover have "applied d [Ran (GitApply d) r, Ran (GitApplyReject d) r']"
        using False True by (simp add: applied_def)
      ultimately show ?thesis by (rule ok [rotated])
    next
      case f2: False
      have "apply_unified_diff_with_git w d st =
          (False, st\<lparr>trace := trace st @ [Ran (GitApply d) r, Ran (GitApplyReject d) r']\<rparr>)"
        using False f2 by (simp add: apply_unified_diff_with_git_def r r' case_prod_beta)
      then show ?thesis using False f2 by (rule failed [rotated 2])
    qed
  qed
qed

lemma patch_tail_cases:
  fixes st :: "'a orchestrator_scheme"
  obtains
    (declined) a where
      "approval w cfg st = (False, st\<lparr>trace := trace st @ [Asked a]\<rparr>)"
  | (not_applied) as r1 r2 r r' st3 where
      "asks as" "fst r \<noteq> 0" "fst r' \<noteq> 0"
      "approval w cfg st = (True, st3)"
      "apply_unified_diff_with_git w d (ensure_clean_worktree w st3) =
         (False, st\<lparr>trace := trace st @ as @
            [Ran GitResetHard r1, Ran GitClean r2, Ran (GitApply d) r, Ran (GitApplyReject d) r']\<rparr>)"
  | (tested) as r1 r2 ap t st3 st4 where
      "asks as" "applied d ap"
      "approval w cfg st = (True, st3)"
      "apply_unified_diff_with_git w d (ensure_clean_worktree w st3) = (True, st4)"
      "run_tests w cfg st4 =
         ((fst t = 0, test_output t),
          st\<lparr>trace := trace st @ as @ [Ran GitResetHard r1, Ran GitClean r2] @ ap @ [Ran (test_cmd cfg) t]\<rparr>)"
proof -
  obtain as where as: "asks as"
      "approval w cfg st = (fst (approval w cfg st), st\<lparr>trace := trace st @ as\<rparr>)"
      "\<not> fst (approval w cfg st) \<longrightarrow> (\<exists>a. as = [Asked a])"
    using approval_E by blast
  show ?thesis
  proof (cases "fst (approval w cfg st)")
    case False
    then obtain a where "as = [Asked a]" using as(3) by blast
    then have "approval w cfg st = (False, st\<lparr>trace := trace st @ [Asked a]\<rparr>)"
      using as(2) False by simp
    then show ?thesis by (rule declined)
  next
    case True
    define st3 where "st3 = st\<lparr>trace := trace st @ as\<rparr>"
    have a3: "approval w cfg st = (True, st3)" using as(2) True by (simp add: st3_def)
    obtain r1 r2 where c: "ensure_clean_worktree w st3 =
        st\<lparr>trace := trace st @ as @ [Ran GitResetHard r1, Ran GitClean r2]\<rparr>"
      using ensure_clean_worktree_E [of w st3] by (auto simp: st3_def)
    define sc where "sc = st\<lparr>trace := trace st @ as @ [Ran GitResetHard r1, Ran GitClean r2]\<rparr>"
    show ?thesis
    proof (cases rule: apply_unified_diff_with_git_E [where d = d and w = w and st = sc])
      case (failed r r')
      then have "apply_unified_diff_with_git w d (ensure_clean_worktree w st3) =
         (False, st\<lparr>trace := trace st @ as @
            [Ran GitResetHard r1, Ran GitClean r2, Ran (GitApply d) r, Ran (GitApplyReject d) r']\<rparr>)"
        by (simp add: c sc_def)
      then show ?thesis using as(1) failed(1,2) a3 by (intro not_applied)
    next
      case (ok ap)
      define st4 where "st4 = st\<lparr>trace := trace st @ as @ [Ran GitResetHard r1, Ran GitClean r2] @ ap\<rparr>"
      have a4: "apply_unified_diff_with_git w d (ensure_clean_worktree w st3) = (True, st4)"
        using ok(2) by (simp add: c sc_def st4_def)
      obtain t where "run_tests w cfg st4 =
         ((fst t = 0, test_output t),
          st\<lparr>trace := trace st @ as @ [Ran GitResetHard r1, Ran GitClean r2] @ ap @ [Ran (test_cmd cfg) t]\<rparr>)"
        using run_tests_E [of w cfg st4] by (auto simp: st4_def)
      then show ?thesis using as(1) ok(1) a3 a4 by (intro tested)
    qed
  qed
qed

lemma initial_attempt_cases:
  obtains
    (not_diff) resp where
      "\<not> looks_like_diff (strip resp)"
      "initial_attempt w cfg sc n st =
         (st\<lparr>trace := trace st @ [Completed (patch_request cfg sc st) resp],
             attempts := n, last_agent_diff := strip resp\<rparr>, False)"
  | (declined) resp a where
      "initial_attempt w cfg sc n st =
         (st\<lparr>trace := trace st @ [Completed (patch_request cfg sc st) resp, Asked a],
             attempts := n, last_agent_diff := strip resp\<rparr>, False)"
  | (not_applied) resp as r1 r2 r r' where
      "asks as" "fst r \<noteq> 0" "fst r' \<noteq> 0"
      "initial_attempt w cfg sc n st =
         (st\<lparr>trace := trace st @ Completed (patch_request cfg sc st) resp # as @
                [Ran GitResetHard r1, Ran GitClean r2,
                 Ran (GitApply (strip resp)) r, Ran (GitApplyReject (strip resp)) r'],
             attempts := n, last_agent_diff := strip resp\<rparr>, False)"
  | (failed) resp as r1 r2 ap t where
      "asks as" "applied (strip resp) ap" "fst t \<noteq> 0"
      "initial_attempt w cfg sc n st =
         (st\<lparr>trace := trace st @ Completed (patch_request cfg sc st) resp # as @
                [Ran GitResetHard r1, Ran GitClean r2] @ ap @ [Ran (test_cmd cfg) t],
             attempts := n, last_agent_diff := strip resp,
             log_buf := log_buf st @ [LogAttemptPatch n (take 18000 (strip resp)),
                                      LogAttemptOutput n (take 8000 (test_output t))],
             failing_info := test_output t\<rparr>, False)"
  | (fixed) resp as r1 r2 ap t where
      "asks as" "applied (strip resp) ap" "fst t = 0"
      "initial_attempt w cfg sc n st =
         (st\<lparr>trace := trace st @ Completed (patch_request cfg sc st) resp # as @
                [Ran GitResetHard r1, Ran GitClean r2] @ ap @ [Ran (test_cmd cfg) t],
             attempts := n, last_agent_diff := strip resp,
             log_buf := log_buf st @ [LogAttemptPatch n (take 18000 (strip resp)),
                                      LogAttemptOutput n (take 8000 (test_output t)),
                                      LogSuccess n (fst (count_diff_lines (strip resp)))
                                        (snd (count_diff_lines (strip resp)))],
             success := True\<rparr>, True)"
proof -
  obtain resp where p: "propose_patch w cfg sc (failing_info st) (code_ctx st) (st\<lparr>attempts := n\<rparr>) =
      (resp, st\<lparr>trace := trace st @ [Completed (patch_request cfg sc st) resp], attempts := n\<rparr>)"
    using propose_patch_E [of w cfg sc "st\<lparr>attempts := n\<rparr>"] by auto
  define st2 where "st2 = st\<lparr>trace := trace st @ [Completed (patch_request cfg sc st) resp],
      attempts := n, last_agent_diff := strip resp\<rparr>"
  show ?thesis
  proof (cases "looks_like_diff (strip resp)")
    case False
    have "initial_attempt w cfg sc n st =
         (st\<lparr>trace := trace st @ [Completed (patch_request cfg sc st) resp],
             attempts := n, last_agent_diff := strip resp\<rparr>, False)"
      using p False by (simp add: initial_attempt_def Let_def)
    with False show ?thesis by (rule not_diff)
  next
    case True
    show ?thesis
    proof (cases rule: patch_tail_cases [where w = w and cfg = cfg and st = st2 and d = "strip resp"])
      case (declined a)
      have "initial_attempt w cfg sc n st =
         (st\<lparr>trace := trace st @ [Completed (patch_request cfg sc st) resp, Asked a],
             attempts := n, last_agent_diff := strip resp\<rparr>, False)"
        using p True declined by (simp add: initial_attempt_def Let_def st2_def)
      then show ?thesis by (rule that(2))
    next
      case (not_applied as r1 r2 r r' st3)
      have "initial_attempt w cfg sc n st =
         (st\<lparr>trace := trace st @ Completed (patch_request cfg sc st) resp # as @
                [Ran GitResetHard r1, Ran GitClean r2,
                 Ran (GitApply (strip resp)) r, Ran (GitApplyReject (strip resp)) r'],
             attempts := n, last_agent_diff := strip resp\<rparr>, False)"
        using p True not_applied(4,5) by (simp add: initial_attempt_def Let_def st2_def)
      with not_applied(1-3) show ?thesis by (rule that(3))
    next
      case (tested as r1 r2 ap t st3 st4)
      show ?thesis
      proof (cases "fst t = 0")
        case False
        have "initial_attempt w cfg sc n st =
         (st\<lparr>trace := trace st @ Completed (patch_request cfg sc st) resp # as @
                [Ran GitResetHard r1, Ran GitClean r2] @ ap @ [Ran (test_cmd cfg) t],
             attempts := n, last_agent_diff := strip resp,
             log_buf := log_buf st @ [LogAttemptPatch n (take 18000 (strip resp)),
                                      LogAttemptOutput n (take 8000 (test_output t))],
             failing_info := test_output t\<rparr>, False)"
          using p True tested(3-5) False by (simp add: initial_attempt_def Let_def st2_def)
        with tested(1,2) False show ?thesis by (rule that(4))
      next
        case t0: True
        have "initial_attempt w cfg sc n st =
         (st\<lparr>trace := trace st @ Completed (patch_request cfg sc st) resp # as @
                [Ran GitResetHard r1, Ran GitClean r2] @ ap @ [Ran (test_cmd cfg) t],
             attempts := n, last_agent_diff := strip resp,
             log_buf := log_buf st @ [LogAttemptPatch n (take 18000 (strip resp)),
                                      LogAttemptOutput n (take 8000 (test_output t)),
                                      LogSuccess n (fst (count_diff_lines (strip resp)))
                                        (snd (count_diff_lines (strip resp)))],
             success := True\<rparr>, True)"
          using p True tested(3-5) t0 by (simp add: initial_attempt_def Let_def st2_def)
        with tested(1,2) t0 show ?thesis by (rule that(5))
      qed
    qed
  qed
qed

lemma post_refine_attempt_cases:
  obtains
    (not_diff) resp where
      "\<not> looks_like_diff (strip resp)"
      "post_refine_attempt w cfg sc rr n st =
         (st\<lparr>trace := trace st @ [Completed (patch_request cfg sc st) resp],
             last_agent_diff := strip resp\<rparr>, False)"
  | (declined) resp a where
      "post_refine_attempt w cfg sc rr n st =
         (st\<lparr>trace := trace st @ [Completed (patch_request cfg sc st) resp, Asked a],
             last_agent_diff := strip resp\<rparr>, False)"
  | (not_applied) resp as r1 r2 r r' where
      "asks as" "fst r \<noteq> 0" "fst r' \<noteq> 0"
      "post_refine_attempt w cfg sc rr n st =
         (st\<lparr>trace := trace st @ Completed (patch_request cfg sc st) resp # as @
                [Ran GitResetHard r1, Ran GitClean r2,
                 Ran (GitApply (strip resp)) r, Ran (GitApplyReject (strip resp)) r'],
             last_agent_diff := strip resp\<rparr>, False)"
  | (failed) resp as r1 r2 ap t where
      "asks as" "applied (strip resp) ap" "fst t \<noteq> 0"
      "post_refine_attempt w cfg sc rr n st =
         (st\<lparr>trace := trace st @ Completed (patch_request cfg sc st) resp # as @
                [Ran GitResetHard r1, Ran GitClean r2] @ ap @ [Ran (test_cmd cfg) t],
             last_agent_diff := strip resp,
             log_buf := log_buf st @ [LogPostAttemptPatch n (take 18000 (strip resp)),
                                      LogPostAttemptOutput n (take 8000 (test_output t))]\<rparr>, False)"
  | (fixed) resp as r1 r2 ap t where
      "asks as" "applied (strip resp) ap" "fst t = 0"
      "post_refine_attempt w cfg sc rr n st =
         (st\<lparr>trace := trace st @ Completed (patch_request cfg sc st) resp # as @
                [Ran GitResetHard r1, Ran GitClean r2] @ ap @ [Ran (test_cmd cfg) t],
             last_agent_diff := strip resp,
             log_buf := log_buf st @ [LogPostAttemptPatch n (take 18000 (strip resp)),
                                      LogPostAttemptOutput n (take 8000 (test_output t)),
                                      LogSuccessAfterRefine rr n (fst (count_diff_lines (strip resp)))
                                        (snd (count_diff_lines (strip resp)))],
             success := True\<rparr>, True)"
proof -
  obtain resp where p: "propose_patch w cfg sc (failing_info st) (code_ctx st) st =
      (resp, st\<lparr>trace := trace st @ [Completed (patch_request cfg sc st) resp]\<rparr>)"
    using propose_patch_E [of w cfg sc st] by auto
  define st2 where "st2 = st\<lparr>trace := trace st @ [Completed (patch_request cfg sc st) resp],
      last_agent_diff := strip resp\<rparr>"
  show ?thesis
  proof (cases "looks_like_diff (strip resp)")
    case False
    have "post_refine_attempt w cfg sc rr n st =
         (st\<lparr>trace := trace st @ [Completed (patch_request cfg sc st) resp],
             last_agent_diff := strip resp\<rparr>, False)"
      using p False by (simp add: post_refine_attempt_def Let_def)
    with False show ?thesis by (rule not_diff)
  next
    case True
    show ?thesis
    proof (cases rule: patch_tail_cases [where w = w and cfg = cfg and st = st2 and d = "strip resp"])
      case (declined a)
      have "post_refine_attempt w cfg sc rr n st =
         (st\<lparr>trace := trace st @ [Completed (patch_request cfg sc st) resp, Asked a],
             last_agent_diff := strip resp\<rparr>, False)"
        using p True declined by (simp add: post_refine_attempt_def Let_def st2_def)
      then show ?thesis by (rule that(2))
    next
      case (not_applied as r1 r2 r r' st3)
      have "post_refine_attempt w cfg sc rr n st =
         (st\<lparr>trace := trace st @ Completed (patch_request cfg sc st) resp # as @
                [Ran GitResetHard r1, Ran GitClean r2,
                 Ran (GitApply (strip resp)) r, Ran (GitApplyReject (strip resp)) r'],
             last_agent_diff := strip resp\<rparr>, False)"
        using p True not_applied(4,5) by (simp add: post_refine_attempt_def Let_def st2_def)
      with not_applied(1-3) show ?thesis by (rule that(3))
    next
      case (tested as r1 r2 ap t st3 st4)
      show ?thesis
      proof (cases "fst t = 0")
        case False
        have "post_refine_attempt w cfg sc rr n st =
         (st\<lparr>trace := trace st @ Completed (patch_request cfg sc st) resp # as @
                [Ran GitResetHard r1, Ran GitClean r2] @ ap @ [Ran (test_cmd cfg) t],
             last_agent_diff := strip resp,
             log_buf := log_buf st @ [LogPostAttemptPatch n (take 18000 (strip resp)),
                                      LogPostAttemptOutput n (take 8000 (test_output t))]\<rparr>, False)"
          using p True tested(3-5) False by (simp add: post_refine_attempt_def Let_def st2_def)
        with tested(1,2) False show ?thesis by (rule that(4))
      next
        case t0: True
        have "post_refine_attempt w cfg sc rr n st =
         (st\<lparr>trace := trace st @ Completed (patch_request cfg sc st) resp # as @
                [Ran GitResetHard r1, Ran GitClean r2] @ ap @ [Ran (test_cmd cfg) t],
             last_agent_diff := strip resp,
             log_buf := log_buf st @ [LogPostAttemptPatch n (take 18000 (strip resp)),
                                      LogPostAttemptOutput n (take 8000 (test_output t)),
                                      LogSuccessAfterRefine rr n (fst (count_diff_lines (strip resp)))
                                        (snd (count_diff_lines (strip resp)))],
             success := True\<rparr>, True)"
          using p True tested(3-5) t0 by (simp add: post_refine_attempt_def Let_def st2_def)
        with tested(1,2) t0 show ?thesis by (rule that(5))
      qed
    qed
  qed
qed

section \<open>Facts about traces\<close>

lemma head_at_skip: "\<not> is_checkout e \<Longrightarrow> head_at p (e # r) = head_at p r"
  by (induction p "e # r" rule: head_at.induct) auto

lemma head_at_skips: "\<forall>e \<in> set es. \<not> is_checkout e \<Longrightarrow> head_at p (rev es @ r) = head_at p r"
  by (induction es arbitrary: r) (auto simp: head_at_skip)

lemma unpatched_skip:
  "\<not> is_checkout e \<Longrightarrow> \<not> is_patching e \<Longrightarrow> unpatched p (e # r) = unpatched p r"
  by (induction p "e # r" rule: unpatched.induct) auto

lemma unpatched_head_at: "unpatched p r \<Longrightarrow> head_at p r"
  by (induction p r rule: unpatched.induct) auto

lemma placed_append: "placed p r (xs @ ys) = (placed p r xs \<and> placed p (rev xs @ r) ys)"
  by (induction xs arbitrary: r) auto

lemma placed_reads:
  "unpatched p r \<Longrightarrow> list_all is_read es \<Longrightarrow> placed p r es \<and> unpatched p (rev es @ r)"
proof (induction es arbitrary: r)
  case Nil
  then show ?case by simp
next
  case (Cons e es)
  then have e: "is_read e" and es: "list_all is_read es" by simp_all
  from e have w: "well_placed p r e" using Cons.prems(1) by (cases e) simp_all
  from e have "unpatched p (e # r)" using Cons.prems(1) by (cases e) simp_all
  then show ?case using Cons.IH [of "e # r"] es w by simp
qed

lemma attempt_events_kinds:
  "attempt_events es \<Longrightarrow>
   \<forall>e \<in> set es. \<not> is_checkout e \<and> \<not> is_coach e \<and> \<not> is_log e \<and> \<not> is_read e"
  by (auto simp: attempt_events_def asks_def applied_def elim!: is_propose.elims)

lemma attempt_events_count: "attempt_events es \<Longrightarrow> length (filter is_propose es) = 1"
  by (auto simp: attempt_events_def asks_def applied_def)

lemma attempt_events_hd: "attempt_events es \<Longrightarrow> es \<noteq> [] \<and> is_propose (hd es)"
  by (auto simp: attempt_events_def)

lemma attempt_events_placed: "head_at p r \<Longrightarrow> attempt_events es \<Longrightarrow> placed p r es"
  by (auto simp: attempt_events_def asks_def applied_def head_at_skip elim!: is_propose.elims)

lemma attempt_events_head_at:
  "attempt_events es \<Longrightarrow> head_at p (rev es @ r) = head_at p r"
  using attempt_events_kinds [of es] by (simp add: head_at_skips)

section \<open>One attempt, and an attempt loop\<close>

lemma attempt_eventsI1:
  "is_propose (Completed q resp) \<Longrightarrow> asks as \<Longrightarrow> attempt_events (Completed q resp # as)"
  unfolding attempt_events_def by blast

lemma attempt_eventsI2:
  "is_propose (Completed q resp) \<Longrightarrow> asks as \<Longrightarrow> fst x \<noteq> 0 \<Longrightarrow> fst x' \<noteq> 0 \<Longrightarrow>
   attempt_events (Completed q resp # as @
     [Ran GitResetHard r1, Ran GitClean r2, Ran (GitApply d) x, Ran (GitApplyReject d) x'])"
  unfolding attempt_events_def by blast

lemma attempt_eventsI3:
  "is_propose (Completed q resp) \<Longrightarrow> asks as \<Longrightarrow> applied d ap \<Longrightarrow>
   attempt_events (Completed q resp # as @ [Ran GitResetHard r1, Ran GitClean r2] @ ap @
     [Ran (TestCommand t env) res])"
  unfolding attempt_events_def by blast

lemma attempt_eventsI3n:
  "is_propose (Completed q resp) \<Longrightarrow> asks as \<Longrightarrow> applied d ap \<Longrightarrow>
   attempt_events (Completed q resp # as @ Ran GitResetHard r1 # Ran GitClean r2 # ap @
     [Ran (TestCommand t env) res])"
  using attempt_eventsI3 [of q resp as d ap r1 r2 t env res] by simp

lemma asks_not_passed: "asks as \<Longrightarrow> \<not> list_ex passed as"
  by (auto simp: asks_def)

lemma applied_not_passed: "applied d ap \<Longrightarrow> \<not> list_ex passed ap"
  by (auto simp: applied_def)

lemma initial_attempt_summary:
  assumes "initial_attempt w cfg sc n st = (st', brk)"
  shows "trace st' = trace st @ new_events st st'"
    and "attempt_events (new_events st st')"
    and "brk = list_ex passed (new_events st st')"
    and "guidelines st' = guidelines st \<and> files st' = files st \<and> refine_success st' = refine_success st"
    and "success st' = (success st \<or> brk)"
    and "no_success (log_buf st) \<Longrightarrow> \<not> brk \<Longrightarrow> no_success (log_buf st')"
proof -
  have "trace st' = trace st @ new_events st st' \<and> attempt_events (new_events st st') \<and>
      brk = list_ex passed (new_events st st') \<and>
      (guidelines st' = guidelines st \<and> files st' = files st \<and> refine_success st' = refine_success st) \<and>
      success st' = (success st \<or> brk) \<and>
      (no_success (log_buf st) \<longrightarrow> \<not> brk \<longrightarrow> no_success (log_buf st'))"
  proof (cases rule: initial_attempt_cases [of w cfg sc n st])
    case (not_diff resp)
    then show ?thesis using assms
      by (auto simp: new_events_def asks_def intro!: attempt_eventsI1)
  next
    case (declined resp a)
    then show ?thesis using assms
      by (auto simp: new_events_def asks_def intro!: attempt_eventsI1)
  next
    case (not_applied resp as r1 r2 r r')
    then show ?thesis using assms asks_not_passed [of as]
      by (auto simp: new_events_def intro!: attempt_eventsI2)
  next
    case (failed resp as r1 r2 ap t)
    then show ?thesis using assms asks_not_passed [of as] applied_not_passed [of "strip resp" ap]
      by (auto simp: new_events_def no_success_def intro!: attempt_eventsI3n)
  next
    case (fixed resp as r1 r2 ap t)
    then show ?thesis using assms
      by (auto simp: new_events_def intro!: attempt_eventsI3n)
  qed
  then show "trace st' = trace st @ new_events st st'"
    and "attempt_events (new_events st st')"
    and "brk = list_ex passed (new_events st st')"
    and "guidelines st' = guidelines st \<and> files st' = files st \<and> refine_success st' = refine_success st"
    and "success st' = (success st \<or> brk)"
    and "no_success (log_buf st) \<Longrightarrow> \<not> brk \<Longrightarrow> no_success (log_buf st')"
    by blast+
qed

lemma post_refine_attempt_summary:
  assumes "post_refine_attempt w cfg sc rr n st = (st', brk)"
  shows "trace st' = trace st @ new_events st st'"
    and "attempt_events (new_events st st')"
    and "brk = list_ex passed (new_events st st')"
    and "guidelines st' = guidelines st \<and> files st' = files st \<and> refine_success st' = refine_success st"
    and "success st' = (success st \<or> brk)"
    and "no_success (log_buf st) \<Longrightarrow> \<not> brk \<Longrightarrow> no_success (log_buf st')"
proof -
  have "trace st' = trace st @ new_events st st' \<and> attempt_events (new_events st st') \<and>
      brk = list_ex passed (new_events st st') \<and>
      (guidelines st' = guidelines st \<and> files st' = files st \<and> refine_success st' = refine_success st) \<and>
      success st' = (success st \<or> brk) \<and>
      (no_success (log_buf st) \<longrightarrow> \<not> brk \<longrightarrow> no_success (log_buf st'))"
  proof (cases rule: post_refine_attempt_cases [of w cfg sc rr n st])
    case (not_diff resp)
    then show ?thesis using assms
      by (auto simp: new_events_def asks_def intro!: attempt_eventsI1)
  next
    case (declined resp a)
    then show ?thesis using assms
      by (auto simp: new_events_def asks_def intro!: attempt_eventsI1)
  next
    case (not_applied resp as r1 r2 r r')
    then show ?thesis using assms asks_not_passed [of as]
      by (auto simp: new_events_def intro!: attempt_eventsI2)
  next
    case (failed resp as r1 r2 ap t)
    then show ?thesis using assms asks_not_passed [of as] applied_not_passed [of "strip resp" ap]
      by (auto simp: new_events_def no_success_def intro!: attempt_eventsI3n)
  next
    case (fixed resp as r1 r2 ap t)
    then show ?thesis using assms
      by (auto simp: new_events_def intro!: attempt_eventsI3n)
  qed
  then show "trace st' = trace st @ new_events st st'"
    and "attempt_events (new_events st st')"
    and "brk = list_ex passed (new_events st st')"
    and "guidelines st' = guidelines st \<and> files st' = files st \<and> refine_success st' = refine_success st"
    and "success st' = (success st \<or> brk)"
    and "no_success (log_buf st) \<Longrightarrow> \<not> brk \<Longrightarrow> no_success (log_buf st')"
    by blast+
qed

lemma attempts_run_Nil: "attempts_run [] st st []"
  by (simp add: attempts_run_def)

lemma attempts_run_break:
  assumes "trace s1 = trace st @ e1" "attempt_events e1" "list_ex passed e1"
    "guidelines s1 = guidelines st \<and> files s1 = files st \<and> refine_success s1 = refine_success st"
    "success s1 = (success st \<or> True)"
  shows "attempts_run (n # ns) st s1 [e1]"
  using assms by (simp add: attempts_run_def)

lemma attempts_run_step:
  assumes "trace s1 = trace st @ e1" "attempt_events e1" "\<not> list_ex passed e1"
    "guidelines s1 = guidelines st \<and> files s1 = files st \<and> refine_success s1 = refine_success st"
    "success s1 = (success st \<or> False)"
    "no_success (log_buf st) \<Longrightarrow> no_success (log_buf s1)"
    "attempts_run ns s1 st' ess"
  shows "attempts_run (n # ns) st st' (e1 # ess)"
  using assms by (auto simp: attempts_run_def)

lemma initial_attempts_run: "\<exists>ess. attempts_run ns st (initial_attempts w cfg sc ns st) ess"
proof (induction ns arbitrary: st)
  case Nil
  show ?case using attempts_run_Nil by auto
next
  case (Cons n ns)
  obtain s1 brk where b: "initial_attempt w cfg sc n st = (s1, brk)" by fastforce
  note s = initial_attempt_summary [OF b]
  show ?case
  proof (cases brk)
    case True
    then have "attempts_run (n # ns) st s1 [new_events st s1]"
      using s by (intro attempts_run_break) auto
    then show ?thesis using b True by auto
  next
    case False
    obtain ess where "attempts_run ns s1 (initial_attempts w cfg sc ns s1) ess"
      using Cons [of s1] by blast
    then have "attempts_run (n # ns) st (initial_attempts w cfg sc ns s1) (new_events st s1 # ess)"
      using s False by (intro attempts_run_step) auto
    then show ?thesis using b False by auto
  qed
qed

lemma post_refine_attempts_run:
  "\<exists>ess. attempts_run ns st (post_refine_attempts w cfg sc rr ns st) ess"
proof (induction ns arbitrary: st)
  case Nil
  show ?case using attempts_run_Nil by auto
next
  case (Cons n ns)
  obtain s1 brk where b: "post_refine_attempt w cfg sc rr n st = (s1, brk)" by fastforce
  note s = post_refine_attempt_summary [OF b]
  show ?case
  proof (cases brk)
    case True
    then have "attempts_run (n # ns) st s1 [new_events st s1]"
      using s by (intro attempts_run_break) auto
    then show ?thesis using b True by auto
  next
    case False
    obtain ess where "attempts_run ns s1 (post_refine_attempts w cfg sc rr ns s1) ess"
      using Cons [of s1] by blast
    then have "attempts_run (n # ns) st (post_refine_attempts w cfg sc rr ns s1) (new_events st s1 # ess)"
      using s False by (intro attempts_run_step) auto
    then show ?thesis using b False by auto
  qed
qed

lemma attempts_kinds:
  "list_all attempt_events ess \<Longrightarrow>
   \<forall>e \<in> set (concat ess). \<not> is_checkout e \<and> \<not> is_coach e \<and> \<not> is_log e \<and> \<not> is_read e"
  using attempt_events_kinds by (fastforce simp: list_all_iff)

lemma attempts_count:
  "list_all attempt_events ess \<Longrightarrow> length (filter is_propose (concat ess)) = length ess"
  by (induction ess) (auto simp: attempt_events_count)

lemma attempts_hd:
  "list_all attempt_events ess \<Longrightarrow> concat ess = [] \<or> is_propose (hd (concat ess))"
  by (induction ess) (auto simp: attempt_events_hd)

lemma attempts_placed:
  "list_all attempt_events ess \<Longrightarrow> head_at p r \<Longrightarrow> placed p r (concat ess)"
proof (induction ess arbitrary: r)
  case Nil
  show ?case by simp
next
  case (Cons es ess)
  then have es: "attempt_events es" and ess: "list_all attempt_events ess" by simp_all
  have "placed p r es" using Cons.prems(2) es by (rule attempt_events_placed)
  moreover have "head_at p (rev es @ r)" using es Cons.prems(2) by (simp add: attempt_events_head_at)
  ultimately show ?case using Cons.IH [OF ess] by (simp add: placed_append)
qed

lemma attempts_head_at:
  "list_all attempt_events ess \<Longrightarrow> head_at p (rev (concat ess) @ r) = head_at p r"
  using attempts_kinds [of ess] by (simp add: head_at_skips)

section \<open>One refinement round\<close>

lemma refine_E:
  fixes st :: run
  shows "\<exists>resp. refine w cfg sc (last_agent_diff st) (failing_info st) (as_bullets (guidelines st)) st =
     (parse_guidelines (json_loads w) (strip resp),
      st\<lparr>trace := trace st @ [Completed (coach_request cfg sc st) resp]\<rparr>)"
proof -
  obtain resp where "complete (llm_ref w) (coach_request cfg sc st) st =
      (resp, st\<lparr>trace := trace st @ [Completed (coach_request cfg sc st) resp]\<rparr>)"
    using complete_E by blast
  then have "refine w cfg sc (last_agent_diff st) (failing_info st) (as_bullets (guidelines st)) st =
     (parse_guidelines (json_loads w) (strip resp),
      st\<lparr>trace := trace st @ [Completed (coach_request cfg sc st) resp]\<rparr>)"
    by (simp add: refine_def)
  then show ?thesis by blast
qed

lemma load_files_E:
  "\<exists>es. list_all is_read es \<and>
     snd (load_files w cfg rels ctx st) = st\<lparr>trace := trace st @ es\<rparr>"
proof (induction rels arbitrary: ctx st)
  case Nil
  have "list_all is_read [] \<and> snd (load_files w cfg [] ctx st) = st\<lparr>trace := trace st @ []\<rparr>"
    by simp
  then show ?case by blast
next
  case (Cons rel rels)
  define ex where "ex = path_exists w (trace st) rel"
  define st1 where "st1 = st\<lparr>trace := trace st @ [Exists rel ex]\<rparr>"
  show ?case
  proof (cases ex)
    case False
    obtain es where es: "list_all is_read es"
        "snd (load_files w cfg rels ctx st1) = st1\<lparr>trace := trace st1 @ es\<rparr>"
      using Cons [of ctx st1] by blast
    have "snd (load_files w cfg (rel # rels) ctx st) = st\<lparr>trace := trace st @ (Exists rel ex # es)\<rparr>"
      using False es(2) by (simp add: Let_def ex_def st1_def)
    moreover have "list_all is_read (Exists rel ex # es)" using es(1) by simp
    ultimately show ?thesis by blast
  next
    case True
    define content where "content = file_text w (trace st1) rel (max_context_bytes_per_file cfg)"
    define st2 where "st2 = st1\<lparr>trace := trace st1 @ [ReadFile rel content]\<rparr>"
    obtain es where es: "list_all is_read es"
        "snd (load_files w cfg rels (AList.update rel content ctx) st2) = st2\<lparr>trace := trace st2 @ es\<rparr>"
      using Cons [of "AList.update rel content ctx" st2] by blast
    have "snd (load_files w cfg (rel # rels) ctx st) =
        st\<lparr>trace := trace st @ (Exists rel ex # ReadFile rel content # es)\<rparr>"
      using True es(2) by (simp add: Let_def ex_def st1_def content_def st2_def)
    moreover have "list_all is_read (Exists rel ex # ReadFile rel content # es)" using es(1) by simp
    ultimately show ?thesis by blast
  qed
qed

lemma load_code_context_E:
  "\<exists>ctx es. list_all is_read es \<and>
     load_code_context w cfg sc st = (ctx, st\<lparr>trace := trace st @ es\<rparr>)"
proof -
  obtain es where es: "list_all is_read es"
      "snd (load_files w cfg (files_changed sc) [] st) = st\<lparr>trace := trace st @ es\<rparr>"
    using load_files_E [of w cfg "files_changed sc" "[]" st] by blast
  have "load_code_context w cfg sc st =
      (fst (load_files w cfg (files_changed sc) [] st), st\<lparr>trace := trace st @ es\<rparr>)"
    unfolding load_code_context_def es(2) [symmetric] by simp
  then show ?thesis using es(1) by blast
qed

lemma merge_guidelines_facts:
  "trace (merge_guidelines rr gs st) = trace st"
  "success (merge_guidelines rr gs st) = success st"
  "refine_success (merge_guidelines rr gs st) = refine_success st"
  "no_success (log_buf st) \<Longrightarrow> no_success (log_buf (merge_guidelines rr gs st))"
  by (simp_all add: merge_guidelines_def Let_def no_success_def)

text \<open>
  The three ways a refinement round goes, after the coach's answer \<open>resp\<close> has been
  merged: the checkout fails; the baseline passes; or the baseline fails and the attempt
  loop runs, from the state \<open>s0\<close>.
\<close>

lemma refinement_round_cases:
  obtains
    (checkout_failed) resp r1 r2 r3 m where
      "m = merge_guidelines rr (parse_guidelines (json_loads w) (strip resp)) st"
      "fst r3 \<noteq> 0"
      "refinement_round w cfg sc rr st =
         (m\<lparr>trace := trace st @ [Completed (coach_request cfg sc st) resp, Ran GitResetHard r1,
               Ran GitClean r2, Ran (GitCheckout (parent_commit sc)) r3]\<rparr>, True)"
  | (baseline_passes) resp r1 r2 r3 t m where
      "m = merge_guidelines rr (parse_guidelines (json_loads w) (strip resp)) st"
      "fst r3 = 0" "fst t = 0"
      "refinement_round w cfg sc rr st =
         (m\<lparr>trace := trace st @ [Completed (coach_request cfg sc st) resp, Ran GitResetHard r1,
               Ran GitClean r2, Ran (GitCheckout (parent_commit sc)) r3, Ran (test_cmd cfg) t],
             log_buf := log_buf m @ [LogBaselinePasses]\<rparr>, True)"
  | (attempted) resp r1 r2 r3 t reads ctx m s0 s1 where
      "m = merge_guidelines rr (parse_guidelines (json_loads w) (strip resp)) st"
      "fst r3 = 0" "fst t \<noteq> 0" "list_all is_read reads"
      "s0 = m\<lparr>trace := trace st @ [Completed (coach_request cfg sc st) resp, Ran GitResetHard r1,
               Ran GitClean r2, Ran (GitCheckout (parent_commit sc)) r3, Ran (test_cmd cfg) t] @ reads,
             failing_info := test_output t, code_ctx := ctx, last_agent_diff := [], success := False\<rparr>"
      "s1 = post_refine_attempts w cfg sc rr [1 .. max_fix_attempts_per_bug cfg] s0"
      "refinement_round w cfg sc rr st = (if success s1 then (s1\<lparr>refine_success := True\<rparr>, True) else (s1, False))"
proof -
  obtain resp where r: "refine w cfg sc (last_agent_diff st) (failing_info st) (as_bullets (guidelines st)) st =
     (parse_guidelines (json_loads w) (strip resp),
      st\<lparr>trace := trace st @ [Completed (coach_request cfg sc st) resp]\<rparr>)"
    using refine_E by blast
  define gs where "gs = parse_guidelines (json_loads w) (strip resp)"
  define m where "m = merge_guidelines rr gs st"
  define m1 where "m1 = merge_guidelines rr gs (st\<lparr>trace := trace st @ [Completed (coach_request cfg sc st) resp]\<rparr>)"
  have m1: "m1 = m\<lparr>trace := trace st @ [Completed (coach_request cfg sc st) resp]\<rparr>"
    by (simp add: m1_def m_def merge_guidelines_def Let_def)
  obtain r1 r2 r3 where c: "git_checkout_detached w (parent_commit sc) m1 =
       (if fst r3 \<noteq> 0 then Some RuntimeError else None,
        m\<lparr>trace := trace st @ [Completed (coach_request cfg sc st) resp, Ran GitResetHard r1,
             Ran GitClean r2, Ran (GitCheckout (parent_commit sc)) r3]\<rparr>)"
    using git_checkout_detached_E [of w "parent_commit sc" m1] by (auto simp: m1)
  define m2 where "m2 = m\<lparr>trace := trace st @ [Completed (coach_request cfg sc st) resp, Ran GitResetHard r1,
             Ran GitClean r2, Ran (GitCheckout (parent_commit sc)) r3]\<rparr>"
  show ?thesis
  proof (cases "fst r3 = 0")
    case False
    have "refinement_round w cfg sc rr st = (m2, True)"
      using r c False by (simp add: refinement_round_def gs_def m1_def m2_def)
    then have e: "refinement_round w cfg sc rr st =
         (m\<lparr>trace := trace st @ [Completed (coach_request cfg sc st) resp, Ran GitResetHard r1,
               Ran GitClean r2, Ran (GitCheckout (parent_commit sc)) r3]\<rparr>, True)"
      by (simp add: m2_def)
    have md: "m = merge_guidelines rr (parse_guidelines (json_loads w) (strip resp)) st"
      by (simp add: m_def gs_def)
    show ?thesis using md False e by (rule checkout_failed)
  next
    case True
    obtain t where t: "run_tests w cfg m2 =
        ((fst t = 0, test_output t), m2\<lparr>trace := trace m2 @ [Ran (test_cmd cfg) t]\<rparr>)"
      using run_tests_E by blast
    define m3 where "m3 = m2\<lparr>trace := trace m2 @ [Ran (test_cmd cfg) t]\<rparr>"
    show ?thesis
    proof (cases "fst t = 0")
      case t0: True
      have "refinement_round w cfg sc rr st = (m3\<lparr>log_buf := log_buf m3 @ [LogBaselinePasses]\<rparr>, True)"
        using r c True t t0 by (simp add: refinement_round_def gs_def m1_def m2_def m3_def)
      then have e: "refinement_round w cfg sc rr st =
         (m\<lparr>trace := trace st @ [Completed (coach_request cfg sc st) resp, Ran GitResetHard r1,
               Ran GitClean r2, Ran (GitCheckout (parent_commit sc)) r3, Ran (test_cmd cfg) t],
             log_buf := log_buf m @ [LogBaselinePasses]\<rparr>, True)"
        by (simp add: m2_def m3_def)
      have md: "m = merge_guidelines rr (parse_guidelines (json_loads w) (strip resp)) st"
        by (simp add: m_def gs_def)
      show ?thesis using md True t0 e by (rule baseline_passes)
    next
      case False
      obtain ctx reads where l: "list_all is_read reads"
          "load_code_context w cfg sc m3 = (ctx, m3\<lparr>trace := trace m3 @ reads\<rparr>)"
        using load_code_context_E by blast
      define s0 where "s0 = m\<lparr>trace := trace st @ [Completed (coach_request cfg sc st) resp, Ran GitResetHard r1,
               Ran GitClean r2, Ran (GitCheckout (parent_commit sc)) r3, Ran (test_cmd cfg) t] @ reads,
             failing_info := test_output t, code_ctx := ctx, last_agent_diff := [], success := False\<rparr>"
      define s1 where "s1 = post_refine_attempts w cfg sc rr [1 .. max_fix_attempts_per_bug cfg] s0"
      have e: "refinement_round w cfg sc rr st = (if success s1 then (s1\<lparr>refine_success := True\<rparr>, True) else (s1, False))"
        using r c True t False l(2)
        by (simp add: refinement_round_def gs_def m1_def m2_def m3_def s0_def s1_def Let_def m_def)
      have md: "m = merge_guidelines rr (parse_guidelines (json_loads w) (strip resp)) st"
        by (simp add: m_def gs_def)
      show ?thesis using md True False l(1) s0_def s1_def e by (rule attempted)
    qed
  qed
qed

section \<open>Checkouts followed by a passing test run\<close>

lemma has_anomaly_Cons:
  "has_anomaly (a # es) = ((es \<noteq> [] \<and> is_checkout a \<and> passed (hd es)) \<or> has_anomaly es)"
  by (cases es) auto

lemma followed_by_Cons:
  "followed_by t (a # es) =
     ((es = [] \<or> \<not> (is_checkout a \<and> passed (hd es)) \<or> tl es = t) \<and> followed_by t es)"
  by (cases es) auto

lemma has_anomaly_append:
  "\<not> has_anomaly xs \<Longrightarrow> xs = [] \<or> \<not> is_checkout (last xs) \<Longrightarrow>
   has_anomaly (xs @ ys) = has_anomaly ys"
proof (induction xs)
  case Nil
  show ?case by simp
next
  case (Cons a xs)
  show ?case
  proof (cases xs)
    case Nil
    then show ?thesis using Cons.prems by (simp add: has_anomaly_Cons)
  next
    case (Cons b xs')
    then show ?thesis using Cons.IH Cons.prems by (auto simp: has_anomaly_Cons)
  qed
qed

lemma followed_by_append:
  "\<not> has_anomaly xs \<Longrightarrow> xs = [] \<or> \<not> is_checkout (last xs) \<Longrightarrow>
   followed_by t (xs @ ys) = followed_by t ys"
proof (induction xs)
  case Nil
  show ?case by simp
next
  case (Cons a xs)
  show ?case
  proof (cases xs)
    case Nil
    then show ?thesis using Cons.prems by (simp add: followed_by_Cons)
  next
    case (Cons b xs')
    then show ?thesis using Cons.IH Cons.prems by (auto simp: followed_by_Cons has_anomaly_Cons)
  qed
qed

lemma no_checkout_no_anomaly: "\<forall>e \<in> set xs. \<not> is_checkout e \<Longrightarrow> \<not> has_anomaly xs"
  by (induction xs) (auto simp: has_anomaly_Cons)

lemma followed_by_snoc:
  "followed_by [] xs \<Longrightarrow> \<not> passed x \<Longrightarrow> followed_by [x] (xs @ [x])"
proof (induction xs)
  case Nil
  show ?case by simp
next
  case (Cons a xs)
  show ?case
  proof (cases xs)
    case Nil
    then show ?thesis using Cons.prems by simp
  next
    case (Cons b xs')
    then show ?thesis using Cons.IH Cons.prems by (auto simp: followed_by_Cons)
  qed
qed

lemma followed_by_at:
  "followed_by t es \<Longrightarrow> es = pre @ a # b # post \<Longrightarrow> is_checkout a \<Longrightarrow> passed b \<Longrightarrow> post = t"
proof (induction pre arbitrary: es)
  case Nil
  then show ?case by simp
next
  case (Cons x pre)
  then have "followed_by t (pre @ a # b # post)" by (simp add: followed_by_Cons)
  then show ?case using Cons.IH [of "pre @ a # b # post"] Cons.prems by simp
qed

lemma has_anomaly_at: "is_checkout a \<Longrightarrow> passed b \<Longrightarrow> has_anomaly (pre @ a # b # post)"
  by (induction pre) (auto simp: has_anomaly_Cons)

lemma no_anomaly_followed_by: "\<not> has_anomaly xs \<Longrightarrow> followed_by t xs"
proof (induction xs)
  case Nil
  show ?case by simp
next
  case (Cons a xs)
  then show ?case by (cases xs) (auto simp: has_anomaly_Cons followed_by_Cons)
qed

section \<open>What a refinement round does\<close>

lemma new_events_append: "trace st' = trace st @ es \<Longrightarrow> new_events st st' = es"
  by (simp add: new_events_def)

lemma round_prefix_placed:
  "fst r3 = 0 \<Longrightarrow> list_all is_read reads \<Longrightarrow> list_all attempt_events ess \<Longrightarrow>
   placed p r ([Completed q resp, Ran GitResetHard r1, Ran GitClean r2, Ran (GitCheckout p) r3,
                Ran (TestCommand t env) res] @ reads @ concat ess)"
proof -
  assume ok: "fst r3 = 0" and rd: "list_all is_read reads" and at: "list_all attempt_events ess"
  let ?pre = "[Completed q resp, Ran GitResetHard r1, Ran GitClean r2, Ran (GitCheckout p) r3,
                Ran (TestCommand t env) res]"
  have 1: "placed p r ?pre" using ok by simp
  have u: "unpatched p (rev ?pre @ r)" using ok by simp
  have 2: "placed p (rev ?pre @ r) reads" and u2: "unpatched p (rev reads @ rev ?pre @ r)"
    using placed_reads [OF u rd] by simp_all
  have 3: "placed p (rev reads @ rev ?pre @ r) (concat ess)"
    using at unpatched_head_at [OF u2] by (rule attempts_placed)
  show ?thesis using 1 2 3 by (simp only: placed_append rev_append)
qed

lemma round_prefix_no_anomaly:
  "fst res \<noteq> 0 \<Longrightarrow> list_all is_read reads \<Longrightarrow> list_all attempt_events ess \<Longrightarrow>
   \<not> has_anomaly ([Completed q resp, Ran GitResetHard r1, Ran GitClean r2, Ran (GitCheckout p) r3,
                Ran (TestCommand t env) res] @ reads @ concat ess) \<and>
   \<not> is_checkout (last ([Completed q resp, Ran GitResetHard r1, Ran GitClean r2, Ran (GitCheckout p) r3,
                Ran (TestCommand t env) res] @ reads @ concat ess))"
proof -
  assume f: "fst res \<noteq> 0" and rd: "list_all is_read reads" and at: "list_all attempt_events ess"
  have nc: "\<forall>e \<in> set (reads @ concat ess). \<not> is_checkout e"
  proof
    fix e assume "e \<in> set (reads @ concat ess)"
    then consider "e \<in> set reads" | "e \<in> set (concat ess)" by auto
    then show "\<not> is_checkout e"
    proof cases
      case 1
      then have "is_read e" using rd by (simp add: list_all_iff)
      then show ?thesis by (cases e) simp_all
    next
      case 2
      then show ?thesis using attempts_kinds [OF at] by blast
    qed
  qed
  let ?tail = "reads @ concat ess"
  have a: "\<not> has_anomaly ?tail" using nc by (rule no_checkout_no_anomaly)
  have "\<not> has_anomaly (Ran (TestCommand t env) res # ?tail)"
    using a by (simp add: has_anomaly_Cons)
  then have "\<not> has_anomaly ([Completed q resp, Ran GitResetHard r1, Ran GitClean r2,
      Ran (GitCheckout p) r3, Ran (TestCommand t env) res] @ ?tail)"
    using f by (simp add: has_anomaly_Cons)
  moreover have "\<not> is_checkout (last ([Completed q resp, Ran GitResetHard r1, Ran GitClean r2,
      Ran (GitCheckout p) r3, Ran (TestCommand t env) res] @ ?tail))"
  proof (cases "?tail = []")
    case True
    then show ?thesis by simp
  next
    case False
    then have "last ([Completed q resp, Ran GitResetHard r1, Ran GitClean r2,
      Ran (GitCheckout p) r3, Ran (TestCommand t env) res] @ ?tail) = last ?tail"
      by (simp only: last_append if_False)
    moreover have "last ?tail \<in> set ?tail" using False by (rule last_in_set)
    ultimately show ?thesis using nc by metis
  qed
  ultimately show ?thesis by simp
qed

lemma length_upto_1: "length [1 .. n] = nat n"
  by simp

lemma refinement_round_run:
  assumes "refinement_round w cfg sc rr st = (st', brk)"
  shows "round_run cfg sc st st' brk"
proof (cases rule: refinement_round_cases [of rr w st cfg sc])
  case (checkout_failed resp r1 r2 r3 m)
  have m: "trace m = trace st" "success m = success st" "refine_success m = refine_success st"
    "no_success (log_buf st) \<Longrightarrow> no_success (log_buf m)"
    unfolding checkout_failed(1) by (rule merge_guidelines_facts)+
  have st': "st' = m\<lparr>trace := trace st @ [Completed (coach_request cfg sc st) resp, Ran GitResetHard r1,
               Ran GitClean r2, Ran (GitCheckout (parent_commit sc)) r3]\<rparr>" and brk: "brk"
    using assms checkout_failed(3) by simp_all
  have E: "new_events st st' = [Completed (coach_request cfg sc st) resp, Ran GitResetHard r1,
               Ran GitClean r2, Ran (GitCheckout (parent_commit sc)) r3]"
    by (simp add: st' new_events_def)
  show ?thesis
    unfolding round_run_def E using checkout_failed(2) brk by (simp add: st')
next
  case (baseline_passes resp r1 r2 r3 t m)
  have m: "trace m = trace st" "success m = success st" "refine_success m = refine_success st"
    "no_success (log_buf st) \<Longrightarrow> no_success (log_buf m)"
    unfolding baseline_passes(1) by (rule merge_guidelines_facts)+
  have st': "st' = m\<lparr>trace := trace st @ [Completed (coach_request cfg sc st) resp, Ran GitResetHard r1,
               Ran GitClean r2, Ran (GitCheckout (parent_commit sc)) r3, Ran (test_cmd cfg) t],
             log_buf := log_buf m @ [LogBaselinePasses]\<rparr>" and brk: "brk"
    using assms baseline_passes(4) by simp_all
  have E: "new_events st st' = [Completed (coach_request cfg sc st) resp, Ran GitResetHard r1,
               Ran GitClean r2, Ran (GitCheckout (parent_commit sc)) r3, Ran (test_cmd cfg) t]"
    by (simp add: st' new_events_def)
  show ?thesis
    unfolding round_run_def E using baseline_passes(2,3) brk m
    by (simp add: st' no_success_def)
next
  case (attempted resp r1 r2 r3 t reads ctx m s0 s1)
  have m: "trace m = trace st" "success m = success st" "refine_success m = refine_success st"
    "no_success (log_buf st) \<Longrightarrow> no_success (log_buf m)"
    unfolding attempted(1) by (rule merge_guidelines_facts)+
  let ?pre = "[Completed (coach_request cfg sc st) resp, Ran GitResetHard r1,
               Ran GitClean r2, Ran (GitCheckout (parent_commit sc)) r3, Ran (test_cmd cfg) t]"
  obtain ess where "attempts_run [1 .. max_fix_attempts_per_bug cfg] s0 s1 ess"
    unfolding attempted(6) using post_refine_attempts_run by blast
  then have a: "trace s1 = trace s0 @ concat ess" "list_all attempt_events ess"
    "\<not> list_ex passed (concat ess) \<longrightarrow> length ess = nat (max_fix_attempts_per_bug cfg)"
    "refine_success s1 = refine_success s0"
    "success s1 = (success s0 \<or> list_ex passed (concat ess))"
    "no_success (log_buf s0) \<longrightarrow> \<not> list_ex passed (concat ess) \<longrightarrow> no_success (log_buf s1)"
    by (simp_all add: attempts_run_def)
  have s0: "trace s0 = trace st @ ?pre @ reads" "\<not> success s0" "refine_success s0 = refine_success st"
    "log_buf s0 = log_buf m"
    by (simp_all add: attempted(5) m)
  have brk: "brk = success s1" and tr: "trace st' = trace s1" and ls: "log_buf st' = log_buf s1"
    and su: "success st' = success s1"
    and rs: "refine_success st' = (refine_success s1 \<or> success s1)"
    using assms attempted(7) by (auto split: if_splits)
  have E: "new_events st st' = ?pre @ reads @ concat ess"
    by (rule new_events_append) (simp add: tr a(1) s0(1))
  have kinds: "\<forall>e \<in> set (reads @ concat ess). \<not> is_log e \<and> \<not> is_checkout e"
  proof
    fix e assume "e \<in> set (reads @ concat ess)"
    then consider "e \<in> set reads" | "e \<in> set (concat ess)" by auto
    then show "\<not> is_log e \<and> \<not> is_checkout e"
    proof cases
      case 1
      then have "is_read e" using attempted(4) by (simp add: list_all_iff)
      then show ?thesis by (cases e) simp_all
    next
      case 2
      then show ?thesis using attempts_kinds [OF a(2)] by blast
    qed
  qed
  have pl: "placed (parent_commit sc) (rev (trace st)) (?pre @ reads @ concat ess)"
    using attempted(2,4) a(2) by (rule round_prefix_placed)
  have na: "\<not> has_anomaly (?pre @ reads @ concat ess)"
    and nl: "\<not> is_checkout (last (?pre @ reads @ concat ess))"
    using round_prefix_no_anomaly [OF attempted(3,4) a(2)] by simp_all
  have fb: "followed_by [] (?pre @ reads @ concat ess)"
    using na by (rule no_anomaly_followed_by)
  have rd: "\<not> list_ex passed reads \<and> filter is_propose reads = []"
  proof -
    have "\<forall>e \<in> set reads. \<not> passed e \<and> \<not> is_propose e"
    proof
      fix e assume "e \<in> set reads"
      then have "is_read e" using attempted(4) by (simp add: list_all_iff)
      then show "\<not> passed e \<and> \<not> is_propose e" by (cases e) simp_all
    qed
    then show ?thesis by (auto simp: list_ex_iff filter_empty_conv)
  qed
  have cnt: "length (filter is_propose (?pre @ reads @ concat ess)) = length ess"
    using rd attempts_count [OF a(2)] by simp
  have ps: "list_ex passed (?pre @ reads @ concat ess) = list_ex passed (concat ess)"
    using rd attempted(3) by (simp add: list_ex_iff) blast
  have c5: "(\<forall>e \<in> set (?pre @ reads @ concat ess). is_checkout e \<longrightarrow> ok_checkout e) \<and>
       \<not> list_ex passed (?pre @ reads @ concat ess) \<longrightarrow>
         \<not> brk \<and> length (filter is_propose (?pre @ reads @ concat ess)) = nat (max_fix_attempts_per_bug cfg)"
    unfolding cnt ps brk using a(3,5) s0(2) by auto
  have c9: "\<not> success st \<and> \<not> refine_success st \<and> no_success (log_buf st) \<longrightarrow>
         (has_anomaly (?pre @ reads @ concat ess) \<or> \<not> brk) \<longrightarrow>
         \<not> success st' \<and> \<not> refine_success st' \<and> no_success (log_buf st')"
    using na brk su rs ls a(4,5,6) s0(2,3,4) m(4) by auto
  have c2: "\<forall>e \<in> set (?pre @ reads @ concat ess). \<not> is_log e" using kinds by auto
  show ?thesis
    unfolding round_run_def E
    using c2 pl c5 fb na nl c9 by (simp add: tr a(1) s0(1))
qed

section \<open>The refinement loop\<close>

lemma rounds_run_Nil: "rounds_run cfg sc [] st st"
  by (simp add: rounds_run_def new_events_def)

lemma rounds_run_break:
  assumes "round_run cfg sc st s1 True"
  shows "rounds_run cfg sc (r # rs) st s1"
  using assms unfolding round_run_def rounds_run_def by blast

lemma rounds_run_step:
  assumes r: "round_run cfg sc st s1 False" and l: "rounds_run cfg sc rs s1 st'"
  shows "rounds_run cfg sc (r # rs) st st'"
proof -
  define E1 where "E1 = new_events st s1"
  define E2 where "E2 = new_events s1 st'"
  have t1: "trace s1 = trace st @ E1" using r by (simp add: round_run_def E1_def)
  have t2: "trace st' = trace s1 @ E2" using l by (simp add: rounds_run_def E2_def)
  have E: "new_events st st' = E1 @ E2"
    by (rule new_events_append) (simp add: t1 t2)
  have r1: "\<forall>e \<in> set E1. \<not> is_log e" "E1 \<noteq> []" "is_coach (hd E1)"
    "placed (parent_commit sc) (rev (trace st)) E1"
    "(\<forall>e \<in> set E1. is_checkout e \<longrightarrow> ok_checkout e) \<and> \<not> list_ex passed E1 \<longrightarrow>
       length (filter is_propose E1) = nat (max_fix_attempts_per_bug cfg)"
    "\<not> has_anomaly E1" "\<not> is_checkout (last E1)"
    "\<not> success st \<and> \<not> refine_success st \<and> no_success (log_buf st) \<longrightarrow>
       \<not> success s1 \<and> \<not> refine_success s1 \<and> no_success (log_buf s1)"
    using r unfolding round_run_def E1_def by blast+
  have r2: "\<forall>e \<in> set E2. \<not> is_log e"
    "placed (parent_commit sc) (rev (trace s1)) E2"
    "(\<forall>e \<in> set E2. is_checkout e \<longrightarrow> ok_checkout e) \<and> \<not> list_ex passed E2 \<longrightarrow>
       length (filter is_propose E2) = length rs * nat (max_fix_attempts_per_bug cfg)"
    "followed_by [] E2"
    "\<not> success s1 \<and> \<not> refine_success s1 \<and> no_success (log_buf s1) \<longrightarrow> has_anomaly E2 \<longrightarrow>
       \<not> success st' \<and> \<not> refine_success st' \<and> no_success (log_buf st')"
    using l unfolding rounds_run_def E2_def by blast+
  have c1: "trace st' = trace st @ E1 @ E2" by (simp add: t1 t2)
  have c2: "\<forall>e \<in> set (E1 @ E2). \<not> is_log e" using r1(1) r2(1) by auto
  have c3: "E1 @ E2 = [] \<or> is_coach (hd (E1 @ E2))" using r1(2,3) by simp
  have c4: "placed (parent_commit sc) (rev (trace st)) (E1 @ E2)"
    using r1(4) r2(2) by (simp add: placed_append t1)
  have c5: "(\<forall>e \<in> set (E1 @ E2). is_checkout e \<longrightarrow> ok_checkout e) \<and> \<not> list_ex passed (E1 @ E2) \<longrightarrow>
      length (filter is_propose (E1 @ E2)) = length (r # rs) * nat (max_fix_attempts_per_bug cfg)"
    using r1(5) r2(3) by auto
  have c6: "followed_by [] (E1 @ E2)"
    using followed_by_append [OF r1(6), of "[]" E2] r1(7) r2(4) by simp
  have a: "has_anomaly (E1 @ E2) = has_anomaly E2"
    using has_anomaly_append [OF r1(6), of E2] r1(7) by simp
  have c7: "\<not> success st \<and> \<not> refine_success st \<and> no_success (log_buf st) \<longrightarrow>
      has_anomaly (E1 @ E2) \<longrightarrow> \<not> success st' \<and> \<not> refine_success st' \<and> no_success (log_buf st')"
    unfolding a using r1(8) r2(5) by blast
  show ?thesis
    unfolding rounds_run_def E using c1 c2 c3 c4 c5 c6 c7 by blast
qed

lemma refinement_loop_run: "rounds_run cfg sc rs st (refinement_loop w cfg sc rs st)"
proof (induction rs arbitrary: st)
  case Nil
  show ?case by (simp add: rounds_run_Nil)
next
  case (Cons r rs)
  obtain s1 brk where b: "refinement_round w cfg sc r st = (s1, brk)" by fastforce
  have rr: "round_run cfg sc st s1 brk" using b by (rule refinement_round_run)
  show ?case
  proof (cases brk)
    case True
    then show ?thesis using rr b by (simp add: rounds_run_break)
  next
    case False
    then show ?thesis using rr b Cons [of s1] by (simp add: rounds_run_step)
  qed
qed

section \<open>One scenario\<close>

text \<open>
  The four ways a scenario goes: the checkout fails; the baseline passes; an attempt of
  the first loop succeeds; or the first loop is exhausted and the refinement loop runs.
\<close>

lemma process_scenario_cases:
  obtains
    (checkout_failed) r1 r2 r3 where
      "fst r3 \<noteq> 0"
      "process_scenario w cfg sc st =
         st\<lparr>trace := trace st @ [Ran GitResetHard r1, Ran GitClean r2,
                                  Ran (GitCheckout (parent_commit sc)) r3]\<rparr>"
  | (already_passing) r1 r2 r3 t where
      "fst r3 = 0" "fst t = 0"
      "process_scenario w cfg sc st =
         st\<lparr>trace := trace st @ [Ran GitResetHard r1, Ran GitClean r2,
                                  Ran (GitCheckout (parent_commit sc)) r3, Ran (test_cmd cfg) t]\<rparr>"
  | (fixed) r1 r2 r3 t reads ctx s0 s1 where
      "fst r3 = 0" "fst t \<noteq> 0" "list_all is_read reads"
      "s0 = \<lparr>trace = trace st @ [Ran GitResetHard r1, Ran GitClean r2,
                                 Ran (GitCheckout (parent_commit sc)) r3, Ran (test_cmd cfg) t] @ reads,
             guidelines = guidelines st, files = files st,
             failing_info = test_output t, code_ctx = ctx, log_buf = log_start sc (test_output t),
             success = False, attempts = 0, last_agent_diff = [], refine_success = False\<rparr>"
      "s1 = initial_attempts w cfg sc [1 .. max_fix_attempts_per_bug cfg] s0"
      "success s1"
      "process_scenario w cfg sc st =
         \<lparr>trace = trace s1 @ [WroteLog (logs_dir cfg) (log_name sc) (log_buf s1)],
          guidelines = guidelines s1, files = files s1\<rparr>"
  | (refined) r1 r2 r3 t reads ctx s0 s1 s2 where
      "fst r3 = 0" "fst t \<noteq> 0" "list_all is_read reads"
      "s0 = \<lparr>trace = trace st @ [Ran GitResetHard r1, Ran GitClean r2,
                                 Ran (GitCheckout (parent_commit sc)) r3, Ran (test_cmd cfg) t] @ reads,
             guidelines = guidelines st, files = files st,
             failing_info = test_output t, code_ctx = ctx, log_buf = log_start sc (test_output t),
             success = False, attempts = 0, last_agent_diff = [], refine_success = False\<rparr>"
      "s1 = initial_attempts w cfg sc [1 .. max_fix_attempts_per_bug cfg] s0"
      "\<not> success s1"
      "s2 = refinement_loop w cfg sc [1 .. max_refine_iterations_per_bug cfg] s1"
      "process_scenario w cfg sc st =
         \<lparr>trace = trace s2 @ [WroteLog (logs_dir cfg) (log_name sc)
                      (log_buf s2 @ (if \<not> (success s2 \<or> refine_success s2) then [LogFailed] else []))],
          guidelines = guidelines s2, files = files s2\<rparr>"
proof -
  obtain r1 r2 r3 where c: "git_checkout_detached w (parent_commit sc) st =
       (if fst r3 \<noteq> 0 then Some RuntimeError else None,
        st\<lparr>trace := trace st @ [Ran GitResetHard r1, Ran GitClean r2,
                                 Ran (GitCheckout (parent_commit sc)) r3]\<rparr>)"
    using git_checkout_detached_E by blast
  define st1 where "st1 = st\<lparr>trace := trace st @ [Ran GitResetHard r1, Ran GitClean r2,
                                 Ran (GitCheckout (parent_commit sc)) r3]\<rparr>"
  show ?thesis
  proof (cases "fst r3 = 0")
    case False
    have "process_scenario w cfg sc st =
         st\<lparr>trace := trace st @ [Ran GitResetHard r1, Ran GitClean r2,
                                  Ran (GitCheckout (parent_commit sc)) r3]\<rparr>"
      using c False by (simp add: process_scenario_def)
    with False show ?thesis by (rule checkout_failed)
  next
    case True
    obtain t where t: "run_tests w cfg st1 =
        ((fst t = 0, test_output t), st1\<lparr>trace := trace st1 @ [Ran (test_cmd cfg) t]\<rparr>)"
      using run_tests_E by blast
    define st2 where "st2 = st1\<lparr>trace := trace st1 @ [Ran (test_cmd cfg) t]\<rparr>"
    show ?thesis
    proof (cases "fst t = 0")
      case t0: True
      have "process_scenario w cfg sc st =
         st\<lparr>trace := trace st @ [Ran GitResetHard r1, Ran GitClean r2,
                                  Ran (GitCheckout (parent_commit sc)) r3, Ran (test_cmd cfg) t]\<rparr>"
        using c True t t0 by (simp add: process_scenario_def st1_def)
      with True t0 show ?thesis by (rule already_passing)
    next
      case False
      obtain ctx reads where l: "list_all is_read reads"
          "load_code_context w cfg sc st2 = (ctx, st2\<lparr>trace := trace st2 @ reads\<rparr>)"
        using load_code_context_E by blast
      define s0 where "s0 = \<lparr>trace = trace st @ [Ran GitResetHard r1, Ran GitClean r2,
                                 Ran (GitCheckout (parent_commit sc)) r3, Ran (test_cmd cfg) t] @ reads,
             guidelines = guidelines st, files = files st,
             failing_info = test_output t, code_ctx = ctx, log_buf = log_start sc (test_output t),
             success = False, attempts = 0, last_agent_diff = [], refine_success = False\<rparr>"
      define s1 where "s1 = initial_attempts w cfg sc [1 .. max_fix_attempts_per_bug cfg] s0"
      show ?thesis
      proof (cases "success s1")
        case s: True
        have "process_scenario w cfg sc st =
         \<lparr>trace = trace s1 @ [WroteLog (logs_dir cfg) (log_name sc) (log_buf s1)],
          guidelines = guidelines s1, files = files s1\<rparr>"
          using c True t False l(2) s
          by (simp add: process_scenario_def st1_def st2_def s0_def s1_def Let_def log_start_def
              log_name_def finish_def write_log_def)
        with True False l(1) s0_def s1_def s show ?thesis by (rule fixed)
      next
        case s: False
        define s2 where "s2 = refinement_loop w cfg sc [1 .. max_refine_iterations_per_bug cfg] s1"
        have "process_scenario w cfg sc st =
         \<lparr>trace = trace s2 @ [WroteLog (logs_dir cfg) (log_name sc)
                      (log_buf s2 @ (if \<not> (success s2 \<or> refine_success s2) then [LogFailed] else []))],
          guidelines = guidelines s2, files = files s2\<rparr>"
          using c True t False l(2) s
          by (simp add: process_scenario_def st1_def st2_def s0_def s1_def s2_def Let_def log_start_def
              log_name_def finish_def write_log_def)
        with True False l(1) s0_def s1_def s s2_def show ?thesis by (rule refined)
      qed
    qed
  qed
qed

text \<open>The events of a scenario that entered the repair loop.\<close>

lemma reads_kinds:
  "list_all is_read reads \<Longrightarrow>
   \<forall>e \<in> set reads. \<not> is_log e \<and> \<not> is_checkout e \<and> \<not> passed e \<and> \<not> is_propose e \<and> \<not> is_coach e"
proof
  fix e assume "list_all is_read reads" and "e \<in> set reads"
  then have "is_read e" by (simp add: list_all_iff)
  then show "\<not> is_log e \<and> \<not> is_checkout e \<and> \<not> passed e \<and> \<not> is_propose e \<and> \<not> is_coach e"
    by (cases e) simp_all
qed

lemma scenario_events_fixed:
  assumes "s0 = \<lparr>trace = trace st @ pre @ reads, guidelines = g, files = f,
             failing_info = fi, code_ctx = ctx, log_buf = lb,
             success = False, attempts = 0, last_agent_diff = [], refine_success = False\<rparr>"
    and "s1 = initial_attempts w cfg sc ns s0"
    and "st' = \<lparr>trace = trace s1 @ [x], guidelines = guidelines s1, files = files s1\<rparr>"
  obtains ess where "attempts_run ns s0 s1 ess"
    "new_events st st' = pre @ reads @ concat ess @ [x]"
proof -
  obtain ess where a: "attempts_run ns s0 s1 ess"
    unfolding assms(2) using initial_attempts_run by blast
  then have "trace s1 = trace s0 @ concat ess" by (simp add: attempts_run_def)
  then have "trace st' = trace st @ (pre @ reads @ concat ess @ [x])"
    by (simp add: assms(1,3))
  then have "new_events st st' = pre @ reads @ concat ess @ [x]" by (rule new_events_append)
  with a show ?thesis by (rule that)
qed

lemma scenario_events_refined:
  assumes "s0 = \<lparr>trace = trace st @ pre @ reads, guidelines = g, files = f,
             failing_info = fi, code_ctx = ctx, log_buf = lb,
             success = False, attempts = 0, last_agent_diff = [], refine_success = False\<rparr>"
    and "s1 = initial_attempts w cfg sc ns s0"
    and "s2 = refinement_loop w cfg sc rs s1"
    and "st' = \<lparr>trace = trace s2 @ [x], guidelines = guidelines s2, files = files s2\<rparr>"
  obtains ess where "attempts_run ns s0 s1 ess" "rounds_run cfg sc rs s1 s2"
    "new_events st st' = pre @ reads @ concat ess @ new_events s1 s2 @ [x]"
proof -
  obtain ess where a: "attempts_run ns s0 s1 ess"
    unfolding assms(2) using initial_attempts_run by blast
  have r: "rounds_run cfg sc rs s1 s2" unfolding assms(3) by (rule refinement_loop_run)
  have "trace s1 = trace s0 @ concat ess" using a by (simp add: attempts_run_def)
  moreover have "trace s2 = trace s1 @ new_events s1 s2" using r by (simp add: rounds_run_def)
  ultimately have "trace st' = trace st @ (pre @ reads @ concat ess @ new_events s1 s2 @ [x])"
    by (simp add: assms(1,4))
  then have "new_events st st' = pre @ reads @ concat ess @ new_events s1 s2 @ [x]"
    by (rule new_events_append)
  with a r show ?thesis by (rule that)
qed

section \<open>The baseline comes first; the log is written once\<close>

lemma baseline_first_pre:
  "baseline_first p (Ran GitResetHard r1 # Ran GitClean r2 # Ran (GitCheckout p) r3 #
     Ran (TestCommand t env) r4 # rest) = (fst r3 = 0)"
  by (simp add: baseline_first_def)

text \<open>
  C3. In the trace of every scenario the first four events are no calls of the proposer
  or the coach; if the trace holds such a call at all, it starts with the reset, the
  clean, the successful checkout of the buggy parent and the baseline test run, and that
  run failed. If it starts so and the baseline run passed, the trace ends there: no call
  of the proposer or the coach, and the ledger and its file are as they were.
\<close>

theorem baseline_before_any_proposal:
  "\<not> list_ex is_llm (take 4 (new_events st (process_scenario w cfg sc st))) \<and>
   (list_ex is_llm (new_events st (process_scenario w cfg sc st)) \<longrightarrow>
      baseline_first (parent_commit sc) (new_events st (process_scenario w cfg sc st)) \<and>
      \<not> passed (new_events st (process_scenario w cfg sc st) ! 3)) \<and>
   (baseline_first (parent_commit sc) (new_events st (process_scenario w cfg sc st)) \<and>
    passed (new_events st (process_scenario w cfg sc st) ! 3) \<longrightarrow>
      length (new_events st (process_scenario w cfg sc st)) = 4 \<and>
      \<not> list_ex is_llm (new_events st (process_scenario w cfg sc st)) \<and>
      guidelines (process_scenario w cfg sc st) = guidelines st \<and>
      files (process_scenario w cfg sc st) = files st)"
proof (cases rule: process_scenario_cases [of w cfg sc st])
  case (checkout_failed r1 r2 r3)
  have "new_events st (process_scenario w cfg sc st) =
      [Ran GitResetHard r1, Ran GitClean r2, Ran (GitCheckout (parent_commit sc)) r3]"
    by (simp add: checkout_failed(2) new_events_def)
  then show ?thesis by (simp add: checkout_failed(2) is_llm_def baseline_first_def)
next
  case (already_passing r1 r2 r3 t)
  have "new_events st (process_scenario w cfg sc st) =
      [Ran GitResetHard r1, Ran GitClean r2, Ran (GitCheckout (parent_commit sc)) r3, Ran (test_cmd cfg) t]"
    by (simp add: already_passing(3) new_events_def)
  then show ?thesis by (simp add: already_passing(3) is_llm_def)
next
  case (fixed r1 r2 r3 t reads ctx s0 s1)
  obtain ess where
    "new_events st (process_scenario w cfg sc st) =
       [Ran GitResetHard r1, Ran GitClean r2, Ran (GitCheckout (parent_commit sc)) r3, Ran (test_cmd cfg) t] @
       reads @ concat ess @ [WroteLog (logs_dir cfg) (log_name sc) (log_buf s1)]"
    using fixed(4,5,7) by (rule scenario_events_fixed)
  then show ?thesis using fixed(1,2) by (simp add: is_llm_def baseline_first_pre)
next
  case (refined r1 r2 r3 t reads ctx s0 s1 s2)
  obtain ess where
    "new_events st (process_scenario w cfg sc st) =
       [Ran GitResetHard r1, Ran GitClean r2, Ran (GitCheckout (parent_commit sc)) r3, Ran (test_cmd cfg) t] @
       reads @ concat ess @ new_events s1 s2 @ [WroteLog (logs_dir cfg) (log_name sc)
          (log_buf s2 @ (if \<not> (success s2 \<or> refine_success s2) then [LogFailed] else []))]"
    using refined(4,5,7,8) by (rule scenario_events_refined)
  then show ?thesis using refined(1,2) by (simp add: is_llm_def baseline_first_pre)
qed

text \<open>
  C9, as the code has it. A scenario that enters the repair loop writes its log exactly
  once, as the last event of the scenario, to the file named after the first ten
  characters of the parent and of the fix commit, in the log directory. A scenario that
  is skipped, because the checkout failed or the baseline passed, writes no log.
\<close>

theorem log_written_once_when_repair_entered:
  "length (filter is_log (new_events st (process_scenario w cfg sc st))) =
     (if entered_repair (parent_commit sc) (new_events st (process_scenario w cfg sc st)) then 1 else 0) \<and>
   (entered_repair (parent_commit sc) (new_events st (process_scenario w cfg sc st)) \<longrightarrow>
      (\<exists>entries. last (new_events st (process_scenario w cfg sc st)) =
         WroteLog (logs_dir cfg) (log_name sc) entries))"
proof (cases rule: process_scenario_cases [of w cfg sc st])
  case (checkout_failed r1 r2 r3)
  have "new_events st (process_scenario w cfg sc st) =
      [Ran GitResetHard r1, Ran GitClean r2, Ran (GitCheckout (parent_commit sc)) r3]"
    by (simp add: checkout_failed(2) new_events_def)
  then show ?thesis by (simp add: entered_repair_def baseline_first_def)
next
  case (already_passing r1 r2 r3 t)
  have "new_events st (process_scenario w cfg sc st) =
      [Ran GitResetHard r1, Ran GitClean r2, Ran (GitCheckout (parent_commit sc)) r3, Ran (test_cmd cfg) t]"
    by (simp add: already_passing(3) new_events_def)
  then show ?thesis using already_passing(2) by (simp add: entered_repair_def)
next
  case (fixed r1 r2 r3 t reads ctx s0 s1)
  obtain ess where a: "attempts_run [1 .. max_fix_attempts_per_bug cfg] s0 s1 ess" and
    E: "new_events st (process_scenario w cfg sc st) =
       [Ran GitResetHard r1, Ran GitClean r2, Ran (GitCheckout (parent_commit sc)) r3, Ran (test_cmd cfg) t] @
       reads @ concat ess @ [WroteLog (logs_dir cfg) (log_name sc) (log_buf s1)]"
    using fixed(4,5,7) by (rule scenario_events_fixed)
  have 1: "filter is_log reads = []" using reads_kinds [OF fixed(3)] by (simp add: filter_empty_conv)
  have 2: "filter is_log (concat ess) = []"
    using a attempts_kinds [of ess] unfolding attempts_run_def filter_empty_conv by blast
  have 3: "entered_repair (parent_commit sc) (new_events st (process_scenario w cfg sc st))"
    unfolding E using fixed(1,2) by (simp add: entered_repair_def baseline_first_pre)
  show ?thesis using 3 unfolding E by (simp add: 1 2)
next
  case (refined r1 r2 r3 t reads ctx s0 s1 s2)
  obtain ess where a: "attempts_run [1 .. max_fix_attempts_per_bug cfg] s0 s1 ess" and
    r: "rounds_run cfg sc [1 .. max_refine_iterations_per_bug cfg] s1 s2" and
    E: "new_events st (process_scenario w cfg sc st) =
       [Ran GitResetHard r1, Ran GitClean r2, Ran (GitCheckout (parent_commit sc)) r3, Ran (test_cmd cfg) t] @
       reads @ concat ess @ new_events s1 s2 @ [WroteLog (logs_dir cfg) (log_name sc)
          (log_buf s2 @ (if \<not> (success s2 \<or> refine_success s2) then [LogFailed] else []))]"
    using refined(4,5,7,8) by (rule scenario_events_refined)
  have 1: "filter is_log reads = []" using reads_kinds [OF refined(3)] by (simp add: filter_empty_conv)
  have 2: "filter is_log (concat ess) = []"
    using a attempts_kinds [of ess] unfolding attempts_run_def filter_empty_conv by blast
  have 4: "filter is_log (new_events s1 s2) = []"
    using r unfolding rounds_run_def filter_empty_conv by blast
  have 3: "entered_repair (parent_commit sc) (new_events st (process_scenario w cfg sc st))"
    unfolding E using refined(1,2) by (simp add: entered_repair_def baseline_first_pre)
  show ?thesis using 3 unfolding E by (simp add: 1 2 4)
qed

section \<open>The number of proposals\<close>

lemma failed_checkout_iff: "failed_checkout e = (is_checkout e \<and> \<not> ok_checkout e)"
  by (induction e rule: failed_checkout.induct) simp_all

lemma no_failed_checkout:
  "\<not> list_ex failed_checkout es \<Longrightarrow> \<forall>e \<in> set es. is_checkout e \<longrightarrow> ok_checkout e"
  by (auto simp: list_ex_iff failed_checkout_iff)

lemma budget_arith: "int (nat a + nat r * nat a) = max 0 a * (1 + max 0 r)"
proof -
  have "int (nat a + nat r * nat a) = int (nat a) + int (nat r) * int (nat a)" by simp
  also have "\<dots> = max 0 a + max 0 r * max 0 a" by (simp add: max_def)
  also have "\<dots> = max 0 a * (1 + max 0 r)" by (simp add: algebra_simps)
  finally show ?thesis .
qed

text \<open>
  C2, as the code has it. When no checkout of the scenario fails and no test run of the
  scenario passes, the proposer is called \<open>max 0 maxAttempts * (1 + max 0 maxRefinements)\<close>
  times: a budget below zero counts as zero. For budgets that are not negative this is
  \<open>maxAttempts * (1 + maxRefinements)\<close>.
\<close>

theorem proposals_when_budgets_exhausted:
  assumes "\<not> list_ex failed_checkout (new_events st (process_scenario w cfg sc st))"
    and "\<not> list_ex passed (new_events st (process_scenario w cfg sc st))"
  shows "int (length (filter is_propose (new_events st (process_scenario w cfg sc st)))) =
           max 0 (max_fix_attempts_per_bug cfg) * (1 + max 0 (max_refine_iterations_per_bug cfg)) \<and>
         (0 \<le> max_fix_attempts_per_bug cfg \<and> 0 \<le> max_refine_iterations_per_bug cfg \<longrightarrow>
            int (length (filter is_propose (new_events st (process_scenario w cfg sc st)))) =
              max_fix_attempts_per_bug cfg * (1 + max_refine_iterations_per_bug cfg))"
proof -
  have "int (length (filter is_propose (new_events st (process_scenario w cfg sc st)))) =
           max 0 (max_fix_attempts_per_bug cfg) * (1 + max 0 (max_refine_iterations_per_bug cfg))"
  proof (cases rule: process_scenario_cases [of w cfg sc st])
    case (checkout_failed r1 r2 r3)
    have "new_events st (process_scenario w cfg sc st) =
        [Ran GitResetHard r1, Ran GitClean r2, Ran (GitCheckout (parent_commit sc)) r3]"
      by (simp add: checkout_failed(2) new_events_def)
    then show ?thesis using assms(1) checkout_failed(1) by simp
  next
    case (already_passing r1 r2 r3 t)
    have "new_events st (process_scenario w cfg sc st) =
        [Ran GitResetHard r1, Ran GitClean r2, Ran (GitCheckout (parent_commit sc)) r3, Ran (test_cmd cfg) t]"
      by (simp add: already_passing(3) new_events_def)
    then show ?thesis using assms(2) already_passing(2) by simp
  next
    case (fixed r1 r2 r3 t reads ctx s0 s1)
    obtain ess where a: "attempts_run [1 .. max_fix_attempts_per_bug cfg] s0 s1 ess" and
      E: "new_events st (process_scenario w cfg sc st) =
         [Ran GitResetHard r1, Ran GitClean r2, Ran (GitCheckout (parent_commit sc)) r3, Ran (test_cmd cfg) t] @
         reads @ concat ess @ [WroteLog (logs_dir cfg) (log_name sc) (log_buf s1)]"
      using fixed(4,5,7) by (rule scenario_events_fixed)
    have "list_ex passed (concat ess)"
      using a fixed(6) by (simp add: attempts_run_def fixed(4))
    then show ?thesis using assms(2) unfolding E by (auto simp: list_ex_iff)
  next
    case (refined r1 r2 r3 t reads ctx s0 s1 s2)
    obtain ess where a: "attempts_run [1 .. max_fix_attempts_per_bug cfg] s0 s1 ess" and
      r: "rounds_run cfg sc [1 .. max_refine_iterations_per_bug cfg] s1 s2" and
      E: "new_events st (process_scenario w cfg sc st) =
         [Ran GitResetHard r1, Ran GitClean r2, Ran (GitCheckout (parent_commit sc)) r3, Ran (test_cmd cfg) t] @
         reads @ concat ess @ new_events s1 s2 @ [WroteLog (logs_dir cfg) (log_name sc)
            (log_buf s2 @ (if \<not> (success s2 \<or> refine_success s2) then [LogFailed] else []))]"
      using refined(4,5,7,8) by (rule scenario_events_refined)
    have np: "\<not> list_ex passed (concat ess)" "\<not> list_ex passed (new_events s1 s2)"
      using assms(2) unfolding E by (auto simp: list_ex_iff)
    have nf: "\<not> list_ex failed_checkout (new_events s1 s2)"
      using assms(1) unfolding E by (auto simp: list_ex_iff)
    have ll: "list_all attempt_events ess" using a by (simp add: attempts_run_def)
    have 1: "length ess = nat (max_fix_attempts_per_bug cfg)"
      using a np(1) by (simp add: attempts_run_def)
    have 2: "length (filter is_propose (new_events s1 s2)) =
        nat (max_refine_iterations_per_bug cfg) * nat (max_fix_attempts_per_bug cfg)"
      using r np(2) no_failed_checkout [OF nf] unfolding rounds_run_def by simp
    have 3: "filter is_propose reads = []"
      using reads_kinds [OF refined(3)] by (simp add: filter_empty_conv)
    have "length (filter is_propose (new_events st (process_scenario w cfg sc st))) =
        nat (max_fix_attempts_per_bug cfg) +
        nat (max_refine_iterations_per_bug cfg) * nat (max_fix_attempts_per_bug cfg)"
      unfolding E by (simp add: 3 attempts_count [OF ll] 1 2)
    then show ?thesis by (simp only: budget_arith)
  qed
  then show ?thesis by (simp add: max_def)
qed

section \<open>Every patch is applied to a clean tree\<close>

lemma baseline_placed:
  assumes "fst r3 = 0" "list_all is_read reads" "list_all attempt_events ess"
  shows "placed p r ([Ran GitResetHard r1, Ran GitClean r2, Ran (GitCheckout p) r3,
                      Ran (TestCommand t env) res] @ reads @ concat ess)"
proof -
  let ?pre = "[Ran GitResetHard r1, Ran GitClean r2, Ran (GitCheckout p) r3, Ran (TestCommand t env) res]"
  have 1: "placed p r ?pre" using assms(1) by simp
  have u: "unpatched p (rev ?pre @ r)" using assms(1) by simp
  have 2: "placed p (rev ?pre @ r) reads" and u2: "unpatched p (rev reads @ rev ?pre @ r)"
    using placed_reads [OF u assms(2)] by simp_all
  have 3: "placed p (rev reads @ rev ?pre @ r) (concat ess)"
    using assms(3) unpatched_head_at [OF u2] by (rule attempts_placed)
  show ?thesis using 1 2 3 by (simp only: placed_append rev_append)
qed

lemma placed_nth:
  "placed p r es \<Longrightarrow> i < length es \<Longrightarrow> well_placed p (rev (take i es) @ r) (es ! i)"
proof (induction es arbitrary: i r)
  case Nil
  then show ?case by simp
next
  case (Cons e es)
  show ?case
  proof (cases i)
    case 0
    then show ?thesis using Cons.prems by simp
  next
    case (Suc j)
    then show ?thesis using Cons.IH [of "e # r" j] Cons.prems by simp
  qed
qed

lemma clean_at_top: "clean_at p (a # b # r) \<Longrightarrow> is_clean a \<and> is_reset b \<and> head_at p r"
  by (erule clean_at.elims) auto

lemma head_at_within: "head_at p (xs @ r) \<Longrightarrow> list_ex is_checkout xs \<Longrightarrow> head_at p xs"
proof (induction xs)
  case Nil
  then show ?case by simp
next
  case (Cons x xs)
  show ?case
  proof (cases "is_checkout x")
    case True
    then show ?thesis using Cons.prems(1) by (cases x rule: is_checkout.cases) simp_all
  next
    case False
    then show ?thesis using Cons by (simp add: head_at_skip)
  qed
qed

lemma take_two_more:
  "2 \<le> i \<Longrightarrow> i < length es \<Longrightarrow> rev (take i es) = es ! (i - 1) # es ! (i - 2) # rev (take (i - 2) es)"
proof -
  assume i: "2 \<le> i" "i < length es"
  have 1: "take i es = take (i - 1) es @ [es ! (i - 1)]"
    using i take_Suc_conv_app_nth [of "i - 1" es] by simp
  have s: "Suc (i - 2) = i - 1" using i by simp
  have 2: "take (i - 1) es = take (i - 2) es @ [es ! (i - 2)]"
    using i take_Suc_conv_app_nth [of "i - 2" es] unfolding s by simp
  show ?thesis unfolding 1 unfolding 2 by simp
qed

text \<open>
  In a trace that starts with the reset, the clean and a checkout, and in which every
  event is well placed, each \<open>git apply\<close> has the reset two places and the clean one
  place before it, and the last checkout before it succeeded, at \<open>p\<close>.
\<close>

lemma placed_apply_at:
  assumes pl: "placed p r es" and i: "i < length es" and ap: "is_apply (es ! i)"
    and st: "3 \<le> length es" "is_reset (es ! 0)" "is_clean (es ! 1)" "is_checkout (es ! 2)"
  shows "2 \<le> i \<and> is_reset (es ! (i - 2)) \<and> is_clean (es ! (i - 1)) \<and> head_at p (rev (take i es))"
proof -
  have d: "\<And>e. is_apply e \<Longrightarrow> \<not> is_reset e \<and> \<not> is_clean e \<and> \<not> is_checkout e"
    subgoal for e by (cases e rule: is_apply.cases) simp_all
    done
  have n0: "i \<noteq> 0" using ap st(2) d by metis
  have n1: "i \<noteq> 1" using ap st(3) d by metis
  have n2: "i \<noteq> 2" using ap st(4) d by metis
  have i2: "2 \<le> i" and i3: "3 \<le> i" using n0 n1 n2 by simp_all
  have "well_placed p (rev (take i es) @ r) (es ! i)" using pl i by (rule placed_nth)
  then have "clean_at p (rev (take i es) @ r)"
    using ap by (cases "es ! i" rule: is_apply.cases) simp_all
  then have c: "clean_at p (es ! (i - 1) # es ! (i - 2) # rev (take (i - 2) es) @ r)"
    using take_two_more [OF i2 i] by simp
  have h: "head_at p (rev (take (i - 2) es) @ r)" and cl: "is_clean (es ! (i - 1))"
    and re: "is_reset (es ! (i - 2))"
    using clean_at_top [OF c] by simp_all
  have "es ! 2 \<in> set (take i es)"
    using i i3 by (simp add: in_set_conv_nth) (metis Suc_le_lessD eval_nat_numeral(3) nth_take)
  then have ex: "list_ex is_checkout (rev (take i es))" using st(4) by (auto simp: list_ex_iff)
  have e1: "\<not> is_checkout (es ! (i - 1))" using cl by (cases "es ! (i - 1)" rule: is_clean.cases) auto
  have e2: "\<not> is_checkout (es ! (i - 2))" using re by (cases "es ! (i - 2)" rule: is_reset.cases) auto
  have "head_at p (rev (take i es) @ r)"
    using h e1 e2 take_two_more [OF i2 i] by (simp add: head_at_skip)
  then have "head_at p (rev (take i es))" using ex by (rule head_at_within)
  then show ?thesis using i2 re cl by simp
qed

lemma scenario_placed:
  "placed (parent_commit sc) (rev (trace st)) (new_events st (process_scenario w cfg sc st)) \<and>
   3 \<le> length (new_events st (process_scenario w cfg sc st)) \<and>
   is_reset (new_events st (process_scenario w cfg sc st) ! 0) \<and>
   is_clean (new_events st (process_scenario w cfg sc st) ! 1) \<and>
   is_checkout (new_events st (process_scenario w cfg sc st) ! 2)"
proof (cases rule: process_scenario_cases [of w cfg sc st])
  case (checkout_failed r1 r2 r3)
  have "new_events st (process_scenario w cfg sc st) =
      [Ran GitResetHard r1, Ran GitClean r2, Ran (GitCheckout (parent_commit sc)) r3]"
    by (simp add: checkout_failed(2) new_events_def)
  then show ?thesis by simp
next
  case (already_passing r1 r2 r3 t)
  have "new_events st (process_scenario w cfg sc st) =
      [Ran GitResetHard r1, Ran GitClean r2, Ran (GitCheckout (parent_commit sc)) r3, Ran (test_cmd cfg) t]"
    by (simp add: already_passing(3) new_events_def)
  then show ?thesis using already_passing(1) by simp
next
  case (fixed r1 r2 r3 t reads ctx s0 s1)
  let ?pre = "[Ran GitResetHard r1, Ran GitClean r2, Ran (GitCheckout (parent_commit sc)) r3,
               Ran (test_cmd cfg) t]"
  obtain ess where a: "attempts_run [1 .. max_fix_attempts_per_bug cfg] s0 s1 ess" and
    E: "new_events st (process_scenario w cfg sc st) =
       ?pre @ reads @ concat ess @ [WroteLog (logs_dir cfg) (log_name sc) (log_buf s1)]"
    using fixed(4,5,7) by (rule scenario_events_fixed)
  have ll: "list_all attempt_events ess" using a by (simp add: attempts_run_def)
  have "placed (parent_commit sc) (rev (trace st)) (?pre @ reads @ concat ess)"
    using fixed(1,3) ll by (rule baseline_placed)
  then have "placed (parent_commit sc) (rev (trace st))
      ((?pre @ reads @ concat ess) @ [WroteLog (logs_dir cfg) (log_name sc) (log_buf s1)])"
    by (simp only: placed_append) simp
  then show ?thesis unfolding E by simp
next
  case (refined r1 r2 r3 t reads ctx s0 s1 s2)
  let ?pre = "[Ran GitResetHard r1, Ran GitClean r2, Ran (GitCheckout (parent_commit sc)) r3,
               Ran (test_cmd cfg) t]"
  let ?W = "WroteLog (logs_dir cfg) (log_name sc)
          (log_buf s2 @ (if \<not> (success s2 \<or> refine_success s2) then [LogFailed] else []))"
  obtain ess where a: "attempts_run [1 .. max_fix_attempts_per_bug cfg] s0 s1 ess" and
    r: "rounds_run cfg sc [1 .. max_refine_iterations_per_bug cfg] s1 s2" and
    E: "new_events st (process_scenario w cfg sc st) =
       ?pre @ reads @ concat ess @ new_events s1 s2 @ [?W]"
    using refined(4,5,7,8) by (rule scenario_events_refined)
  have ll: "list_all attempt_events ess" and t1: "trace s1 = trace s0 @ concat ess"
    using a by (simp_all add: attempts_run_def)
  have 1: "placed (parent_commit sc) (rev (trace st)) (?pre @ reads @ concat ess)"
    using refined(1,3) ll by (rule baseline_placed)
  have "trace s1 = trace st @ (?pre @ reads @ concat ess)" using t1 by (simp add: refined(4))
  then have rv: "rev (trace s1) = rev (?pre @ reads @ concat ess) @ rev (trace st)" by simp
  have 2: "placed (parent_commit sc) (rev (?pre @ reads @ concat ess) @ rev (trace st)) (new_events s1 s2)"
    using r unfolding rounds_run_def rv by blast
  have "placed (parent_commit sc) (rev (trace st))
      ((?pre @ reads @ concat ess) @ new_events s1 s2 @ [?W])"
    using 1 2 by (simp only: placed_append) simp
  then show ?thesis unfolding E by simp
qed

text \<open>
  C1. Every event of a scenario is well placed (see \<open>well_placed\<close>): each \<open>git apply\<close>
  comes right after \<open>git reset --hard\<close> and \<open>git clean -fd\<close>, and the last checkout
  before it is the successful checkout of the scenario's buggy parent; a
  \<open>git apply --reject\<close> comes right after the failed \<open>git apply\<close> of the same patch; the
  tests run right after that checkout or right after the one patch that was applied to
  the clean tree; and the files of the working tree are read only before any patch has
  been applied to it. Both attempt loops are in \<open>process_scenario\<close>. The resets are the
  commands the program issues: their exit codes are not looked at by the code.
\<close>

theorem every_patch_applied_to_clean_tree:
  "placed (parent_commit sc) (rev (trace st)) (new_events st (process_scenario w cfg sc st)) \<and>
   (\<forall>i < length (new_events st (process_scenario w cfg sc st)).
      is_apply (new_events st (process_scenario w cfg sc st) ! i) \<longrightarrow>
        2 \<le> i \<and>
        is_reset (new_events st (process_scenario w cfg sc st) ! (i - 2)) \<and>
        is_clean (new_events st (process_scenario w cfg sc st) ! (i - 1)) \<and>
        head_at (parent_commit sc) (rev (take i (new_events st (process_scenario w cfg sc st)))))"
  using scenario_placed [of sc st w cfg] placed_apply_at by blast

section \<open>The example runs, evaluated\<close>

lemmas run_defs = process_scenario_def git_checkout_detached_def ensure_clean_worktree_def run_cmd_def
  run_tests_def load_code_context_def initial_attempt_def post_refine_attempt_def refinement_round_def
  propose_patch_def refine_def complete_def approval_def apply_unified_diff_with_git_def write_log_def
  finish_def merge_guidelines_def example_world_def example_cfg_def example_scenario_def example_start_def
  example_proposal_def example_coaching_def example_log_start_def log_name_def Let_def

lemmas shape_defs = looks_like_diff_def line_starts_def match_diff_git_def match_dashes_def
  placeholder_def strip_def isspace_def startswith_def

lemma run_no_checkout:
  "process_scenario no_checkout_world (example_cfg 1 1) example_scenario example_start =
     \<lparr>trace = [Ran GitResetHard exit_ok, Ran GitClean exit_ok,
               Ran (GitCheckout ''0123456789abcdef'') (1, [], ''fatal: reference is not a tree'')],
      guidelines = \<lparr>path = ''prompt_guidelines.md'', items = []\<rparr>, files = Map.empty\<rparr>"
  by (simp add: run_defs no_checkout_world_def)

lemma run_passing:
  "process_scenario passing_world (example_cfg 1 1) example_scenario example_start =
     \<lparr>trace = [Ran GitResetHard exit_ok, Ran GitClean exit_ok,
               Ran (GitCheckout ''0123456789abcdef'') exit_ok, Ran example_test exit_ok],
      guidelines = \<lparr>path = ''prompt_guidelines.md'', items = []\<rparr>, files = Map.empty\<rparr>"
  by (simp add: run_defs passing_world_def)

lemma run_failing:
  "process_scenario failing_world (example_cfg 1 1) example_scenario example_start =
     \<lparr>trace = [Ran GitResetHard exit_ok, Ran GitClean exit_ok,
               Ran (GitCheckout ''0123456789abcdef'') exit_ok, Ran example_test tests_fail,
               Completed (example_proposal []) placeholder,
               Completed (example_coaching placeholder) placeholder,
               Ran GitResetHard exit_ok, Ran GitClean exit_ok,
               Ran (GitCheckout ''0123456789abcdef'') exit_ok, Ran example_test tests_fail,
               Completed (example_proposal []) placeholder,
               WroteLog ''agent_logs'' ''0123456789_fedcba9876.md''
                 (example_log_start @ [LogRefineNone 1, LogFailed])],
      guidelines = \<lparr>path = ''prompt_guidelines.md'', items = []\<rparr>, files = Map.empty\<rparr>"
  by (simp add: run_defs failing_world_def shape_defs parse_guidelines_def splitlines_def
      is_linebreak_def bullet_match_def)

lemma run_failing_negative:
  "process_scenario failing_world (example_cfg 3 (- 1)) example_scenario example_start =
     \<lparr>trace = [Ran GitResetHard exit_ok, Ran GitClean exit_ok,
               Ran (GitCheckout ''0123456789abcdef'') exit_ok, Ran example_test tests_fail,
               Completed (example_proposal []) placeholder,
               Completed (example_proposal []) placeholder,
               Completed (example_proposal []) placeholder,
               WroteLog ''agent_logs'' ''0123456789_fedcba9876.md'' (example_log_start @ [LogFailed])],
      guidelines = \<lparr>path = ''prompt_guidelines.md'', items = []\<rparr>, files = Map.empty\<rparr>"
  by (simp add: run_defs failing_world_def shape_defs upto.simps)

lemma run_anomalous:
  "process_scenario anomalous_world (example_cfg 1 2) example_scenario example_start =
     \<lparr>trace = [Ran GitResetHard exit_ok, Ran GitClean exit_ok,
               Ran (GitCheckout ''0123456789abcdef'') exit_ok, Ran example_test tests_fail,
               Completed (example_proposal []) placeholder,
               Completed (example_coaching placeholder) ''- Check for null before use'',
               Ran GitResetHard exit_ok, Ran GitClean exit_ok,
               Ran (GitCheckout ''0123456789abcdef'') exit_ok, Ran example_test tests_pass,
               WroteLog ''agent_logs'' ''0123456789_fedcba9876.md''
                 (example_log_start @
                  [LogRefineNew 1 [''Check for null before use''], LogBaselinePasses, LogFailed])],
      guidelines = \<lparr>path = ''prompt_guidelines.md'', items = [''Check for null before use'']\<rparr>,
      files = [''prompt_guidelines.md'' \<mapsto> header @ ''- Check for null before use'' @ [LF]]\<rparr>"
  by (simp add: run_defs anomalous_world_def shape_defs parse_guidelines_def splitlines_def
      is_linebreak_def bullet_match_def upto.simps save_def bullet_list_def)

lemma run_fixing:
  "process_scenario fixing_world (example_cfg 1 0) example_scenario example_start =
     \<lparr>trace = [Ran GitResetHard exit_ok, Ran GitClean exit_ok,
               Ran (GitCheckout ''0123456789abcdef'') exit_ok, Ran example_test tests_fail,
               Completed (example_proposal []) ''--- a/src/a.ts'',
               Ran GitResetHard exit_ok, Ran GitClean exit_ok,
               Ran (GitApply ''--- a/src/a.ts'') exit_ok, Ran example_test tests_pass,
               WroteLog ''agent_logs'' ''0123456789_fedcba9876.md''
                 (example_log_start @
                  [LogAttemptPatch 1 ''--- a/src/a.ts'', LogAttemptOutput 1 ''PASS'', LogSuccess 1 0 0])],
      guidelines = \<lparr>path = ''prompt_guidelines.md'', items = []\<rparr>, files = Map.empty\<rparr>"
  by (simp add: run_defs fixing_world_def shape_defs upto.simps count_diff_lines_def splitlines_def
      is_linebreak_def)

section \<open>A baseline that passes during refinement\<close>

lemma baseline_no_anomaly:
  assumes "fst res \<noteq> 0" "list_all is_read reads" "list_all attempt_events ess"
  shows "\<not> has_anomaly ([Ran GitResetHard r1, Ran GitClean r2, Ran (GitCheckout p) r3,
                Ran (TestCommand t env) res] @ reads @ concat ess) \<and>
         \<not> is_checkout (last ([Ran GitResetHard r1, Ran GitClean r2, Ran (GitCheckout p) r3,
                Ran (TestCommand t env) res] @ reads @ concat ess))"
proof -
  let ?X = "[Ran GitResetHard r1, Ran GitClean r2, Ran (GitCheckout p) r3,
             Ran (TestCommand t env) res] @ reads @ concat ess"
  have r: "\<not> has_anomaly ([Completed q []] @ ?X) \<and> \<not> is_checkout (last ([Completed q []] @ ?X))" for q
    using round_prefix_no_anomaly [OF assms, of q "[]" r1 r2 p r3 t env] by simp
  have "\<not> has_anomaly ?X" using r [of undefined] by (simp add: has_anomaly_Cons)
  moreover have "\<not> is_checkout (last ?X)" using r [of undefined] by simp
  ultimately show ?thesis by simp
qed

lemma has_anomaly_snoc: "\<not> passed x \<Longrightarrow> has_anomaly (xs @ [x]) = has_anomaly xs"
proof (induction xs)
  case Nil
  show ?case by simp
next
  case (Cons a xs)
  then show ?case by (cases xs) (auto simp: has_anomaly_Cons)
qed

lemma list_ex_prefix: "list_ex P pre \<Longrightarrow> list_ex P (pre @ post)"
  by simp

text \<open>
  C6. If, in the trace of a scenario, a checkout that comes after a call of the coach is
  directly followed by a test run that passes, then all that follows in the scenario is
  the writing of the log: no further call of the coach, no further attempt. The log that
  is written ends with the entry \<open>**FAILED**\<close>, and none of its entries reports a
  success.
\<close>

theorem passing_baseline_in_refinement_is_a_failure:
  assumes E: "new_events st (process_scenario w cfg sc st) = pre @ a # b # post"
    and coach: "list_ex is_coach pre"
    and a: "is_checkout a" and b: "passed b"
  shows "\<exists>entries. post = [WroteLog (logs_dir cfg) (log_name sc) (entries @ [LogFailed])] \<and>
           no_success entries"
proof (cases rule: process_scenario_cases [of w cfg sc st])
  case (checkout_failed r1 r2 r3)
  have "new_events st (process_scenario w cfg sc st) =
      [Ran GitResetHard r1, Ran GitClean r2, Ran (GitCheckout (parent_commit sc)) r3]"
    by (simp add: checkout_failed(2) new_events_def)
  then have "\<not> list_ex is_coach (new_events st (process_scenario w cfg sc st))" by simp
  then show ?thesis using coach unfolding E by simp
next
  case (already_passing r1 r2 r3 t)
  have "new_events st (process_scenario w cfg sc st) =
      [Ran GitResetHard r1, Ran GitClean r2, Ran (GitCheckout (parent_commit sc)) r3, Ran (test_cmd cfg) t]"
    by (simp add: already_passing(3) new_events_def)
  then have "\<not> list_ex is_coach (new_events st (process_scenario w cfg sc st))" by simp
  then show ?thesis using coach unfolding E by simp
next
  case (fixed r1 r2 r3 t reads ctx s0 s1)
  obtain ess where at: "attempts_run [1 .. max_fix_attempts_per_bug cfg] s0 s1 ess" and
    E': "new_events st (process_scenario w cfg sc st) =
       [Ran GitResetHard r1, Ran GitClean r2, Ran (GitCheckout (parent_commit sc)) r3,
        Ran (test_cmd cfg) t] @ reads @ concat ess @ [WroteLog (logs_dir cfg) (log_name sc) (log_buf s1)]"
    using fixed(4,5,7) by (rule scenario_events_fixed)
  have ll: "list_all attempt_events ess" using at by (simp add: attempts_run_def)
  define X where "X = [Ran GitResetHard r1, Ran GitClean r2, Ran (GitCheckout (parent_commit sc)) r3,
        Ran (test_cmd cfg) t] @ reads @ concat ess"
  have "\<not> has_anomaly X" unfolding X_def using baseline_no_anomaly [OF fixed(2,3) ll] by blast
  then have "\<not> has_anomaly (X @ [WroteLog (logs_dir cfg) (log_name sc) (log_buf s1)])"
    by (simp only: has_anomaly_snoc passed.simps not_False_eq_True)
  then have "\<not> has_anomaly (new_events st (process_scenario w cfg sc st))"
    unfolding E' X_def by simp
  moreover have "has_anomaly (new_events st (process_scenario w cfg sc st))"
    unfolding E using a b by (rule has_anomaly_at)
  ultimately show ?thesis by simp
next
  case (refined r1 r2 r3 t reads ctx s0 s1 s2)
  let ?W = "WroteLog (logs_dir cfg) (log_name sc)
          (log_buf s2 @ (if \<not> (success s2 \<or> refine_success s2) then [LogFailed] else []))"
  obtain ess where at: "attempts_run [1 .. max_fix_attempts_per_bug cfg] s0 s1 ess" and
    r: "rounds_run cfg sc [1 .. max_refine_iterations_per_bug cfg] s1 s2" and
    E': "new_events st (process_scenario w cfg sc st) =
       [Ran GitResetHard r1, Ran GitClean r2, Ran (GitCheckout (parent_commit sc)) r3,
        Ran (test_cmd cfg) t] @ reads @ concat ess @ new_events s1 s2 @ [?W]"
    using refined(4,5,7,8) by (rule scenario_events_refined)
  define X where "X = [Ran GitResetHard r1, Ran GitClean r2, Ran (GitCheckout (parent_commit sc)) r3,
        Ran (test_cmd cfg) t] @ reads @ concat ess"
  define R where "R = new_events s1 s2"
  have EX: "new_events st (process_scenario w cfg sc st) = X @ (R @ [?W])"
    unfolding E' X_def R_def by simp
  have ll: "list_all attempt_events ess" using at by (simp add: attempts_run_def)
  have X: "\<not> has_anomaly X" "X = [] \<or> \<not> is_checkout (last X)"
    unfolding X_def using baseline_no_anomaly [OF refined(2,3) ll] by blast+
  have an: "has_anomaly (X @ (R @ [?W]))"
    unfolding EX [symmetric] E using a b by (rule has_anomaly_at)
  have "has_anomaly (R @ [?W])" using an has_anomaly_append [OF X] by simp
  then have anR: "has_anomaly R" by (simp only: has_anomaly_snoc passed.simps not_False_eq_True)
  have fR: "followed_by [] R" using r unfolding rounds_run_def R_def by blast
  have "followed_by [?W] (R @ [?W])" using fR by (rule followed_by_snoc) simp
  then have "followed_by [?W] (X @ (R @ [?W]))" using followed_by_append [OF X] by simp
  then have post: "post = [?W]"
    using EX [symmetric, unfolded E] a b followed_by_at by blast
  have s0: "\<not> success s0" "\<not> refine_success s0" "no_success (log_buf s0)"
    by (simp_all add: refined(4) log_start_def no_success_def)
  have np: "\<not> list_ex passed (concat ess)" using at refined(6) unfolding attempts_run_def by blast
  have s1: "\<not> success s1 \<and> \<not> refine_success s1 \<and> no_success (log_buf s1)"
    using at s0 np refined(6) unfolding attempts_run_def by blast
  have s2: "\<not> success s2 \<and> \<not> refine_success s2 \<and> no_success (log_buf s2)"
    using r s1 anR unfolding rounds_run_def R_def by blast
  have "post = [WroteLog (logs_dir cfg) (log_name sc) (log_buf s2 @ [LogFailed])]"
    using post s2 by simp
  then show ?thesis using s2 by blast
qed

section \<open>The diff shape and the text of the response\<close>

lemma startswith_prefix: "startswith s p = prefix p s"
proof
  assume "startswith s p"
  then have "p = take (length p) s" by (simp add: startswith_def)
  then show "prefix p s" by (metis take_is_prefix)
next
  assume "prefix p s"
  then obtain t where "s = p @ t" by (auto simp: prefix_def)
  then show "startswith s p" by (simp add: startswith_def)
qed

lemma occurs_in_sublist: "occurs_in p s = sublist p s"
proof (induction s)
  case Nil
  show ?case by simp
next
  case (Cons c cs)
  then show ?case by (simp add: sublist_Cons_right startswith_prefix)
qed

lemma prefix_of_suffix_sublist: "prefix p t \<Longrightarrow> suffix t s \<Longrightarrow> sublist p s"
  by (meson prefix_imp_sublist suffix_imp_sublist sublist_order.order_trans)

lemma after_lf_suffix: "t \<in> set (after_lf s) \<Longrightarrow> suffix t s"
proof (induction s)
  case Nil
  then show ?case by simp
next
  case (Cons c cs)
  then show ?case by (auto simp: suffix_Cons split: if_splits)
qed

lemma line_starts_suffix: "t \<in> set (line_starts s) \<Longrightarrow> suffix t s"
  using after_lf_suffix by (auto simp: line_starts_def)

lemma match_dashes_occurs: "match_dashes t \<Longrightarrow> suffix t s \<Longrightarrow> sublist ''---'' s"
proof -
  assume m: "match_dashes t" and s: "suffix t s"
  have "prefix ''---'' (dropWhile isspace t)"
    using m by (simp add: match_dashes_def Let_def startswith_prefix)
  moreover have "suffix (dropWhile isspace t) s"
    using s suffix_dropWhile suffix_order.order_trans by blast
  ultimately show ?thesis by (rule prefix_of_suffix_sublist)
qed

lemma match_diff_git_occurs: "match_diff_git t \<Longrightarrow> suffix t s \<Longrightarrow> sublist ''--git'' s"
proof -
  assume m: "match_diff_git t" and s: "suffix t s"
  let ?r3 = "dropWhile isspace (drop 4 (dropWhile isspace t))"
  have "prefix ''--git'' ?r3"
    using m by (simp add: match_diff_git_def Let_def startswith_prefix)
  moreover have "suffix ?r3 s"
    using s by (meson suffix_dropWhile suffix_drop suffix_order.order_trans)
  ultimately show ?thesis by (rule prefix_of_suffix_sublist)
qed

lemma looks_like_diff_occurs:
  "looks_like_diff s \<Longrightarrow> sublist ''--git'' s \<or> sublist ''---'' s"
  unfolding looks_like_diff_def list_ex_iff
  using match_diff_git_occurs match_dashes_occurs line_starts_suffix by blast

lemma strip_sublist: "sublist (strip s) s"
proof -
  have "prefix (rev (dropWhile isspace (rev (dropWhile isspace s)))) (dropWhile isspace s)"
    by (metis suffix_dropWhile suffix_to_prefix rev_rev_ident)
  then show ?thesis
    unfolding strip_def
    by (meson prefix_imp_sublist suffix_dropWhile suffix_imp_sublist sublist_order.order_trans)
qed

text \<open>
  A response in which neither \<open>---\<close> nor \<open>--git\<close> occurs does not pass the check of the
  code.
\<close>

lemma no_marker_no_diff:
  "\<not> occurs_in ''---'' resp \<Longrightarrow> \<not> occurs_in ''--git'' resp \<Longrightarrow> \<not> looks_like_diff (strip resp)"
  using looks_like_diff_occurs [of "strip resp"] strip_sublist [of resp]
  by (meson occurs_in_sublist sublist_order.order_trans)

section \<open>A response that is no diff\<close>

lemma propose_patch_attempts:
  fixes st :: run
  shows "propose_patch w cfg sc fi ctx (st\<lparr>attempts := n\<rparr>) =
         (fst (propose_patch w cfg sc fi ctx st),
          (snd (propose_patch w cfg sc fi ctx st))\<lparr>attempts := n\<rparr>)"
proof (cases "llm_bug w")
  case (ClaudeClient sdk)
  then show ?thesis by (cases sdk) (simp_all add: propose_patch_def complete_def Let_def)
qed

lemma propose_patch_snd:
  fixes st :: run
  shows "snd (propose_patch w cfg sc (failing_info st) (code_ctx st) st) =
     st\<lparr>trace := trace st @ [Completed (patch_request cfg sc st)
                                 (fst (propose_patch w cfg sc (failing_info st) (code_ctx st) st))]\<rparr>"
  using propose_patch_E [of w cfg sc st] by auto

lemma placeholder_no_diff: "\<not> looks_like_diff (strip placeholder)"
  by (simp add: looks_like_diff_def line_starts_def match_diff_git_def match_dashes_def
      placeholder_def strip_def isspace_def startswith_def)

lemma propose_patch_placeholder:
  "llm_bug w = ClaudeClient None \<Longrightarrow> fst (propose_patch w cfg sc fi ctx st) = placeholder"
  by (simp add: propose_patch_def complete_def)

lemma initial_attempt_no_diff:
  fixes st :: run
  assumes "\<not> looks_like_diff (strip (fst (propose_patch w cfg sc (failing_info st) (code_ctx st) st)))"
  shows "initial_attempt w cfg sc n st =
     (st\<lparr>trace := trace st @ [Completed (patch_request cfg sc st)
                (fst (propose_patch w cfg sc (failing_info st) (code_ctx st) st))],
         attempts := n,
         last_agent_diff := strip (fst (propose_patch w cfg sc (failing_info st) (code_ctx st) st))\<rparr>,
      False)"
proof -
  obtain resp where p: "propose_patch w cfg sc (failing_info st) (code_ctx st) st =
     (resp, st\<lparr>trace := trace st @ [Completed (patch_request cfg sc st) resp]\<rparr>)"
    using propose_patch_E by blast
  have q: "propose_patch w cfg sc (failing_info st) (code_ctx st) (st\<lparr>attempts := n\<rparr>) =
     (resp, st\<lparr>trace := trace st @ [Completed (patch_request cfg sc st) resp], attempts := n\<rparr>)"
    by (simp add: propose_patch_attempts p)
  have nd: "\<not> looks_like_diff (strip resp)" using assms by (simp add: p)
  show ?thesis unfolding initial_attempt_def by (simp add: q p nd)
qed

lemma post_refine_attempt_no_diff:
  fixes st :: run
  assumes "\<not> looks_like_diff (strip (fst (propose_patch w cfg sc (failing_info st) (code_ctx st) st)))"
  shows "post_refine_attempt w cfg sc rr n st =
     (st\<lparr>trace := trace st @ [Completed (patch_request cfg sc st)
                (fst (propose_patch w cfg sc (failing_info st) (code_ctx st) st))],
         last_agent_diff := strip (fst (propose_patch w cfg sc (failing_info st) (code_ctx st) st))\<rparr>,
      False)"
proof -
  obtain resp where p: "propose_patch w cfg sc (failing_info st) (code_ctx st) st =
     (resp, st\<lparr>trace := trace st @ [Completed (patch_request cfg sc st) resp]\<rparr>)"
    using propose_patch_E by blast
  have nd: "\<not> looks_like_diff (strip resp)" using assms by (simp add: p)
  show ?thesis unfolding post_refine_attempt_def by (simp add: p nd)
qed

text \<open>
  C7, as the code has it. The response of the proposer is stripped and checked by
  \<open>looks_like_diff\<close>: at the start of the text or after a line feed there is, after any
  white space, \<open>diff\<close>, white space, \<open>--git\<close> and white space, or \<open>---\<close> and white
  space. A response in which neither \<open>---\<close> nor \<open>--git\<close> occurs fails the check, and so
  does the placeholder, which \<open>complete\<close> returns when the SDK could not be imported
  (there is no check of the credentials in the code). When the check fails, the attempt
  does nothing but the call of the proposer: its only event is the completion, so there
  is no reset, no patch is applied and no test is run. Nothing is added to the log of
  the scenario and the success flag is left as it was; what is kept of the attempt is
  the response, as \<open>last_agent_diff\<close>, which the coach is shown later (in the initial
  loop the attempt counter is set, too). The attempt ends without \<open>break\<close>, and the loop
  goes on with the next attempt, or ends when this was the last one. This holds in the
  initial attempt loop and in the attempt loop of a refinement round.
\<close>

theorem non_diff_response_skips_the_attempt:
  fixes st :: run and w :: world and cfg :: Config and sc :: BugScenario
  defines "resp \<equiv> fst (propose_patch w cfg sc (failing_info st) (code_ctx st) st)"
  defines "skipped \<equiv> st\<lparr>trace := trace st @ [Completed (patch_request cfg sc st) resp],
                         last_agent_diff := strip resp\<rparr>"
  shows "(llm_bug w = ClaudeClient None \<longrightarrow> resp = placeholder \<and> \<not> looks_like_diff (strip resp)) \<and>
         (\<not> occurs_in ''---'' resp \<and> \<not> occurs_in ''--git'' resp \<longrightarrow> \<not> looks_like_diff (strip resp)) \<and>
         (\<not> looks_like_diff (strip resp) \<longrightarrow>
            initial_attempt w cfg sc n st = (skipped\<lparr>attempts := n\<rparr>, False) \<and>
            initial_attempts w cfg sc (n # ns) st = initial_attempts w cfg sc ns (skipped\<lparr>attempts := n\<rparr>) \<and>
            post_refine_attempt w cfg sc rr n st = (skipped, False) \<and>
            post_refine_attempts w cfg sc rr (n # ns) st = post_refine_attempts w cfg sc rr ns skipped \<and>
            new_events st skipped = [Completed (patch_request cfg sc st) resp] \<and>
            success skipped = success st \<and> log_buf skipped = log_buf st \<and>
            guidelines skipped = guidelines st \<and> files skipped = files st)"
proof -
  have 1: "llm_bug w = ClaudeClient None \<longrightarrow> resp = placeholder \<and> \<not> looks_like_diff (strip resp)"
    unfolding resp_def using propose_patch_placeholder [of w cfg sc "failing_info st" "code_ctx st" st]
      placeholder_no_diff by simp
  have 2: "initial_attempt w cfg sc n st = (skipped\<lparr>attempts := n\<rparr>, False)"
    if "\<not> looks_like_diff (strip resp)"
    using initial_attempt_no_diff [OF that [unfolded resp_def], of n]
    unfolding skipped_def resp_def by simp
  have 3: "post_refine_attempt w cfg sc rr n st = (skipped, False)"
    if "\<not> looks_like_diff (strip resp)"
    using post_refine_attempt_no_diff [OF that [unfolded resp_def], of rr n]
    unfolding skipped_def resp_def by simp
  have 4: "new_events st skipped = [Completed (patch_request cfg sc st) resp]"
    by (simp add: skipped_def new_events_def)
  have 5: "success skipped = success st \<and> log_buf skipped = log_buf st \<and>
      guidelines skipped = guidelines st \<and> files skipped = files st"
    by (simp add: skipped_def)
  have 6: "initial_attempts w cfg sc (n # ns) st = initial_attempts w cfg sc ns (skipped\<lparr>attempts := n\<rparr>)"
    if "\<not> looks_like_diff (strip resp)"
    by (simp add: 2 [OF that])
  have 7: "post_refine_attempts w cfg sc rr (n # ns) st = post_refine_attempts w cfg sc rr ns skipped"
    if "\<not> looks_like_diff (strip resp)"
    by (simp add: 3 [OF that])
  have 8: "\<not> occurs_in ''---'' resp \<and> \<not> occurs_in ''--git'' resp \<longrightarrow> \<not> looks_like_diff (strip resp)"
    using no_marker_no_diff by blast
  show ?thesis using 1 2 3 4 5 6 7 8 by blast
qed

section \<open>The theorems on the example runs\<close>

lemma trace_example_start: "trace example_start = []"
  by (simp add: example_start_def)

lemma events_no_checkout:
  "new_events example_start
     (process_scenario no_checkout_world (example_cfg 1 1) example_scenario example_start) =
   [Ran GitResetHard exit_ok, Ran GitClean exit_ok,
    Ran (GitCheckout ''0123456789abcdef'') (1, [], ''fatal: reference is not a tree'')]"
  by (simp add: run_no_checkout new_events_def trace_example_start)

lemma events_passing:
  "new_events example_start
     (process_scenario passing_world (example_cfg 1 1) example_scenario example_start) =
   [Ran GitResetHard exit_ok, Ran GitClean exit_ok,
    Ran (GitCheckout ''0123456789abcdef'') exit_ok, Ran example_test exit_ok]"
  by (simp add: run_passing new_events_def trace_example_start)

lemma events_failing:
  "new_events example_start
     (process_scenario failing_world (example_cfg 1 1) example_scenario example_start) =
   [Ran GitResetHard exit_ok, Ran GitClean exit_ok,
    Ran (GitCheckout ''0123456789abcdef'') exit_ok, Ran example_test tests_fail,
    Completed (example_proposal []) placeholder,
    Completed (example_coaching placeholder) placeholder,
    Ran GitResetHard exit_ok, Ran GitClean exit_ok,
    Ran (GitCheckout ''0123456789abcdef'') exit_ok, Ran example_test tests_fail,
    Completed (example_proposal []) placeholder,
    WroteLog ''agent_logs'' ''0123456789_fedcba9876.md''
      (example_log_start @ [LogRefineNone 1, LogFailed])]"
  by (simp add: run_failing new_events_def trace_example_start)

lemma events_failing_negative:
  "new_events example_start
     (process_scenario failing_world (example_cfg 3 (- 1)) example_scenario example_start) =
   [Ran GitResetHard exit_ok, Ran GitClean exit_ok,
    Ran (GitCheckout ''0123456789abcdef'') exit_ok, Ran example_test tests_fail,
    Completed (example_proposal []) placeholder,
    Completed (example_proposal []) placeholder,
    Completed (example_proposal []) placeholder,
    WroteLog ''agent_logs'' ''0123456789_fedcba9876.md'' (example_log_start @ [LogFailed])]"
  by (simp add: run_failing_negative new_events_def trace_example_start)

lemma events_anomalous:
  "new_events example_start
     (process_scenario anomalous_world (example_cfg 1 2) example_scenario example_start) =
   [Ran GitResetHard exit_ok, Ran GitClean exit_ok,
    Ran (GitCheckout ''0123456789abcdef'') exit_ok, Ran example_test tests_fail,
    Completed (example_proposal []) placeholder,
    Completed (example_coaching placeholder) ''- Check for null before use'',
    Ran GitResetHard exit_ok, Ran GitClean exit_ok] @
   Ran (GitCheckout ''0123456789abcdef'') exit_ok # Ran example_test tests_pass #
   [WroteLog ''agent_logs'' ''0123456789_fedcba9876.md''
      ((example_log_start @ [LogRefineNew 1 [''Check for null before use''], LogBaselinePasses]) @
       [LogFailed])]"
  by (simp add: run_anomalous new_events_def trace_example_start)

lemma events_fixing:
  "new_events example_start
     (process_scenario fixing_world (example_cfg 1 0) example_scenario example_start) =
   [Ran GitResetHard exit_ok, Ran GitClean exit_ok,
    Ran (GitCheckout ''0123456789abcdef'') exit_ok, Ran example_test tests_fail,
    Completed (example_proposal []) ''--- a/src/a.ts'',
    Ran GitResetHard exit_ok, Ran GitClean exit_ok,
    Ran (GitApply ''--- a/src/a.ts'') exit_ok, Ran example_test tests_pass,
    WroteLog ''agent_logs'' ''0123456789_fedcba9876.md''
      (example_log_start @
       [LogAttemptPatch 1 ''--- a/src/a.ts'', LogAttemptOutput 1 ''PASS'', LogSuccess 1 0 0])]"
  by (simp add: run_fixing new_events_def trace_example_start)

text \<open>
  The run in which the first proposal fixes the bug: the patch is the eighth event, the
  reset and the clean are the sixth and the seventh.
\<close>

theorem every_patch_applied_to_clean_tree_witness:
  "is_apply (new_events example_start
     (process_scenario fixing_world (example_cfg 1 0) example_scenario example_start) ! 7) \<and>
   is_reset (new_events example_start
     (process_scenario fixing_world (example_cfg 1 0) example_scenario example_start) ! 5) \<and>
   is_clean (new_events example_start
     (process_scenario fixing_world (example_cfg 1 0) example_scenario example_start) ! 6) \<and>
   head_at ''0123456789abcdef'' (rev (take 7 (new_events example_start
     (process_scenario fixing_world (example_cfg 1 0) example_scenario example_start))))"
proof -
  let ?E = "new_events example_start
     (process_scenario fixing_world (example_cfg 1 0) example_scenario example_start)"
  have l: "7 < length ?E" by (simp add: events_fixing)
  have a: "is_apply (?E ! 7)" by (simp add: events_fixing)
  have "\<forall>i < length ?E. is_apply (?E ! i) \<longrightarrow>
      2 \<le> i \<and> is_reset (?E ! (i - 2)) \<and> is_clean (?E ! (i - 1)) \<and>
      head_at (parent_commit example_scenario) (rev (take i ?E))"
    using every_patch_applied_to_clean_tree
      [of example_scenario example_start fixing_world "example_cfg 1 0"] by (rule conjunct2)
  then have "is_reset (?E ! (7 - 2)) \<and> is_clean (?E ! (7 - 1)) \<and>
      head_at (parent_commit example_scenario) (rev (take 7 ?E))"
    using l a by blast
  moreover have "parent_commit example_scenario = ''0123456789abcdef''"
    by (simp add: example_scenario_def)
  ultimately show ?thesis using a by simp
qed

text \<open>The run in which every test fails, with one attempt and one refinement round.\<close>

theorem proposals_when_budgets_exhausted_witness:
  "\<not> list_ex failed_checkout (new_events example_start
      (process_scenario failing_world (example_cfg 1 1) example_scenario example_start)) \<and>
   \<not> list_ex passed (new_events example_start
      (process_scenario failing_world (example_cfg 1 1) example_scenario example_start)) \<and>
   int (length (filter is_propose (new_events example_start
      (process_scenario failing_world (example_cfg 1 1) example_scenario example_start)))) = 1 * (1 + 1)"
proof -
  let ?E = "new_events example_start
      (process_scenario failing_world (example_cfg 1 1) example_scenario example_start)"
  have h1: "\<not> list_ex failed_checkout ?E" by (simp add: events_failing)
  have h2: "\<not> list_ex passed ?E" by (simp add: events_failing)
  have "int (length (filter is_propose ?E)) =
      max 0 (max_fix_attempts_per_bug (example_cfg 1 1)) *
      (1 + max 0 (max_refine_iterations_per_bug (example_cfg 1 1)))"
    using proposals_when_budgets_exhausted [OF h1 h2] by (rule conjunct1)
  then have "int (length (filter is_propose ?E)) = 1 * (1 + 1)"
    by (simp add: example_cfg_def)
  then show ?thesis using h1 h2 by simp
qed

text \<open>
  With three attempts and \<open>-1\<close> refinement rounds the proposer is called three times,
  and \<open>3 * (1 + (-1))\<close> is zero.
\<close>

theorem proposals_with_negative_budget:
  "\<not> list_ex failed_checkout (new_events example_start
      (process_scenario failing_world (example_cfg 3 (- 1)) example_scenario example_start)) \<and>
   \<not> list_ex passed (new_events example_start
      (process_scenario failing_world (example_cfg 3 (- 1)) example_scenario example_start)) \<and>
   int (length (filter is_propose (new_events example_start
      (process_scenario failing_world (example_cfg 3 (- 1)) example_scenario example_start)))) = 3 \<and>
   max_fix_attempts_per_bug (example_cfg 3 (- 1)) *
     (1 + max_refine_iterations_per_bug (example_cfg 3 (- 1))) = 0"
proof -
  let ?E = "new_events example_start
      (process_scenario failing_world (example_cfg 3 (- 1)) example_scenario example_start)"
  have 1: "\<not> list_ex failed_checkout ?E" by (simp add: events_failing_negative)
  have 2: "\<not> list_ex passed ?E" by (simp add: events_failing_negative)
  have 3: "int (length (filter is_propose ?E)) = 3"
    by (simp add: events_failing_negative example_proposal_def)
  have 4: "max_fix_attempts_per_bug (example_cfg 3 (- 1)) *
     (1 + max_refine_iterations_per_bug (example_cfg 3 (- 1))) = 0"
    by (simp add: example_cfg_def)
  show ?thesis using 1 2 3 4 by blast
qed

text \<open>
  The run in which every test fails calls the proposer and the coach, after the failing
  baseline; the run in which the baseline passes ends after four events.
\<close>

theorem baseline_before_any_proposal_witness:
  "list_ex is_llm (new_events example_start
      (process_scenario failing_world (example_cfg 1 1) example_scenario example_start)) \<and>
   baseline_first ''0123456789abcdef'' (new_events example_start
      (process_scenario failing_world (example_cfg 1 1) example_scenario example_start)) \<and>
   \<not> passed (new_events example_start
      (process_scenario failing_world (example_cfg 1 1) example_scenario example_start) ! 3) \<and>
   baseline_first ''0123456789abcdef'' (new_events example_start
      (process_scenario passing_world (example_cfg 1 1) example_scenario example_start)) \<and>
   passed (new_events example_start
      (process_scenario passing_world (example_cfg 1 1) example_scenario example_start) ! 3) \<and>
   length (new_events example_start
      (process_scenario passing_world (example_cfg 1 1) example_scenario example_start)) = 4 \<and>
   \<not> list_ex is_llm (new_events example_start
      (process_scenario passing_world (example_cfg 1 1) example_scenario example_start)) \<and>
   guidelines (process_scenario passing_world (example_cfg 1 1) example_scenario example_start) =
     guidelines example_start"
proof -
  let ?F = "new_events example_start
      (process_scenario failing_world (example_cfg 1 1) example_scenario example_start)"
  let ?P = "new_events example_start
      (process_scenario passing_world (example_cfg 1 1) example_scenario example_start)"
  have p: "parent_commit example_scenario = ''0123456789abcdef''"
    by (simp add: example_scenario_def)
  have f1: "list_ex is_llm ?F" by (simp add: events_failing is_llm_def example_proposal_def)
  have p1: "baseline_first ''0123456789abcdef'' ?P" by (simp add: events_passing baseline_first_def)
  have p2: "passed (?P ! 3)" by (simp add: events_passing)
  have "baseline_first ''0123456789abcdef'' ?F \<and> \<not> passed (?F ! 3)"
    using baseline_before_any_proposal [of example_start failing_world "example_cfg 1 1" example_scenario]
      f1 unfolding p by blast
  moreover have "length ?P = 4 \<and> \<not> list_ex is_llm ?P \<and>
      guidelines (process_scenario passing_world (example_cfg 1 1) example_scenario example_start) =
        guidelines example_start"
    using baseline_before_any_proposal [of example_start passing_world "example_cfg 1 1" example_scenario]
      p1 p2 unfolding p by blast
  ultimately show ?thesis using f1 p1 p2 by blast
qed

text \<open>The run in which every test fails writes its log, once, at the end.\<close>

theorem log_written_once_when_repair_entered_witness:
  "entered_repair ''0123456789abcdef'' (new_events example_start
      (process_scenario failing_world (example_cfg 1 1) example_scenario example_start)) \<and>
   length (filter is_log (new_events example_start
      (process_scenario failing_world (example_cfg 1 1) example_scenario example_start))) = 1 \<and>
   (\<exists>entries. last (new_events example_start
      (process_scenario failing_world (example_cfg 1 1) example_scenario example_start)) =
      WroteLog ''agent_logs'' ''0123456789_fedcba9876.md'' entries)"
proof -
  let ?F = "new_events example_start
      (process_scenario failing_world (example_cfg 1 1) example_scenario example_start)"
  have p: "parent_commit example_scenario = ''0123456789abcdef''"
    by (simp add: example_scenario_def)
  have n: "log_name example_scenario = ''0123456789_fedcba9876.md''"
    by (simp add: log_name_def example_scenario_def)
  have d: "logs_dir (example_cfg 1 1) = ''agent_logs''" by (simp add: example_cfg_def)
  have e: "entered_repair ''0123456789abcdef'' ?F"
    by (simp add: events_failing entered_repair_def baseline_first_def)
  have "length (filter is_log ?F) = 1 \<and>
      (\<exists>entries. last ?F = WroteLog ''agent_logs'' ''0123456789_fedcba9876.md'' entries)"
    using log_written_once_when_repair_entered
      [of example_start failing_world "example_cfg 1 1" example_scenario] e
    unfolding p n d by simp
  then show ?thesis using e by blast
qed

text \<open>
  The run in which the checkout fails, and the run in which the baseline passes, write
  no log at all.
\<close>

theorem skipped_scenarios_write_no_log:
  "filter is_log (new_events example_start
      (process_scenario no_checkout_world (example_cfg 1 1) example_scenario example_start)) = [] \<and>
   filter is_log (new_events example_start
      (process_scenario passing_world (example_cfg 1 1) example_scenario example_start)) = [] \<and>
   files (process_scenario no_checkout_world (example_cfg 1 1) example_scenario example_start) = Map.empty \<and>
   files (process_scenario passing_world (example_cfg 1 1) example_scenario example_start) = Map.empty"
proof -
  have 1: "filter is_log (new_events example_start
      (process_scenario no_checkout_world (example_cfg 1 1) example_scenario example_start)) = []"
    by (simp add: events_no_checkout)
  have 2: "filter is_log (new_events example_start
      (process_scenario passing_world (example_cfg 1 1) example_scenario example_start)) = []"
    by (simp add: events_passing)
  have 3: "files (process_scenario no_checkout_world (example_cfg 1 1) example_scenario example_start) =
      Map.empty"
    by (simp add: run_no_checkout)
  have 4: "files (process_scenario passing_world (example_cfg 1 1) example_scenario example_start) =
      Map.empty"
    by (simp add: run_passing)
  show ?thesis using 1 2 3 4 by blast
qed

text \<open>
  The run in which the tests pass once the coach has been called: the checkout of the
  first refinement round is followed by a passing test run, and then by the log alone.
\<close>

theorem passing_baseline_in_refinement_is_a_failure_witness:
  "list_ex is_coach
     [Ran GitResetHard exit_ok, Ran GitClean exit_ok,
      Ran (GitCheckout ''0123456789abcdef'') exit_ok, Ran example_test tests_fail,
      Completed (example_proposal []) placeholder,
      Completed (example_coaching placeholder) ''- Check for null before use'',
      Ran GitResetHard exit_ok, Ran GitClean exit_ok] \<and>
   is_checkout (Ran (GitCheckout ''0123456789abcdef'') exit_ok) \<and>
   passed (Ran example_test tests_pass) \<and>
   (\<exists>entries.
      [WroteLog ''agent_logs'' ''0123456789_fedcba9876.md''
         ((example_log_start @ [LogRefineNew 1 [''Check for null before use''], LogBaselinePasses]) @
          [LogFailed])] =
      [WroteLog (logs_dir (example_cfg 1 2)) (log_name example_scenario) (entries @ [LogFailed])] \<and>
      no_success entries)"
proof -
  have c: "list_ex is_coach
     [Ran GitResetHard exit_ok, Ran GitClean exit_ok,
      Ran (GitCheckout ''0123456789abcdef'') exit_ok, Ran example_test tests_fail,
      Completed (example_proposal []) placeholder,
      Completed (example_coaching placeholder) ''- Check for null before use'',
      Ran GitResetHard exit_ok, Ran GitClean exit_ok]"
    by (simp add: example_coaching_def)
  have a: "is_checkout (Ran (GitCheckout ''0123456789abcdef'') exit_ok)" by simp
  have b: "passed (Ran example_test tests_pass)" by simp
  show ?thesis
    using passing_baseline_in_refinement_is_a_failure [OF events_anomalous c a b] c a b by blast
qed

text \<open>
  Without the SDK the answer is the placeholder; with it, an answer that is prose. Both
  attempts are the call of the proposer alone.
\<close>

theorem non_diff_response_skips_the_attempt_witness:
  "llm_bug failing_world = ClaudeClient None \<and>
   \<not> looks_like_diff (strip placeholder) \<and>
   initial_attempt failing_world (example_cfg 2 1) example_scenario 1 example_run =
     (example_run\<lparr>trace := trace example_run @ [Completed (example_proposal []) placeholder],
                  last_agent_diff := placeholder, attempts := 1\<rparr>, False) \<and>
   post_refine_attempt failing_world (example_cfg 2 1) example_scenario 1 1 example_run =
     (example_run\<lparr>trace := trace example_run @ [Completed (example_proposal []) placeholder],
                  last_agent_diff := placeholder\<rparr>, False) \<and>
   \<not> occurs_in ''---'' prose_answer \<and> \<not> occurs_in ''--git'' prose_answer \<and>
   initial_attempt (answering_world prose_answer) (example_cfg 2 1) example_scenario 1 example_run =
     (example_run\<lparr>trace := trace example_run @ [Completed (example_proposal []) prose_answer],
                  last_agent_diff := prose_answer, attempts := 1\<rparr>, False)"
proof -
  let ?resp = "fst (propose_patch failing_world (example_cfg 2 1) example_scenario
      (failing_info example_run) (code_ctx example_run) example_run)"
  let ?resp2 = "fst (propose_patch (answering_world prose_answer) (example_cfg 2 1) example_scenario
      (failing_info example_run) (code_ctx example_run) example_run)"
  have w: "llm_bug failing_world = ClaudeClient None"
    by (simp add: failing_world_def example_world_def)
  have r: "?resp = placeholder \<and> \<not> looks_like_diff (strip ?resp)"
    using non_diff_response_skips_the_attempt
      [of failing_world "example_cfg 2 1" example_scenario example_run] w by blast
  have s: "strip placeholder = placeholder" by (simp add: shape_defs)
  have q: "patch_request (example_cfg 2 1) example_scenario example_run = example_proposal []"
    by (simp add: example_cfg_def example_scenario_def example_run_def example_proposal_def)
  have rp: "?resp = placeholder" using r by blast
  have nd: "\<not> looks_like_diff (strip placeholder)" using r unfolding rp by blast
  have "initial_attempt failing_world (example_cfg 2 1) example_scenario 1 example_run =
      (example_run\<lparr>trace := trace example_run @
           [Completed (patch_request (example_cfg 2 1) example_scenario example_run) ?resp],
         last_agent_diff := strip ?resp, attempts := 1\<rparr>, False) \<and>
    post_refine_attempt failing_world (example_cfg 2 1) example_scenario 1 1 example_run =
      (example_run\<lparr>trace := trace example_run @
           [Completed (patch_request (example_cfg 2 1) example_scenario example_run) ?resp],
         last_agent_diff := strip ?resp\<rparr>, False)"
    using non_diff_response_skips_the_attempt
      [of failing_world "example_cfg 2 1" example_scenario example_run 1 _ 1] r by blast
  then have a: "initial_attempt failing_world (example_cfg 2 1) example_scenario 1 example_run =
      (example_run\<lparr>trace := trace example_run @ [Completed (example_proposal []) placeholder],
                   last_agent_diff := placeholder, attempts := 1\<rparr>, False) \<and>
    post_refine_attempt failing_world (example_cfg 2 1) example_scenario 1 1 example_run =
      (example_run\<lparr>trace := trace example_run @ [Completed (example_proposal []) placeholder],
                   last_agent_diff := placeholder\<rparr>, False)"
    unfolding q rp s by simp
  have r2: "?resp2 = prose_answer"
    by (simp add: propose_patch_def complete_def answering_world_def example_world_def)
  have o: "\<not> occurs_in ''---'' prose_answer \<and> \<not> occurs_in ''--git'' prose_answer"
    by (simp add: prose_answer_def startswith_def)
  have s2: "strip prose_answer = prose_answer"
    by (simp add: prose_answer_def strip_def isspace_def)
  have n2: "\<not> looks_like_diff (strip ?resp2)"
    using non_diff_response_skips_the_attempt
      [of "answering_world prose_answer" "example_cfg 2 1" example_scenario example_run] o
    unfolding r2 by blast
  have "initial_attempt (answering_world prose_answer) (example_cfg 2 1) example_scenario 1 example_run =
      (example_run\<lparr>trace := trace example_run @
           [Completed (patch_request (example_cfg 2 1) example_scenario example_run) ?resp2],
         last_agent_diff := strip ?resp2, attempts := 1\<rparr>, False)"
    using non_diff_response_skips_the_attempt
      [of "answering_world prose_answer" "example_cfg 2 1" example_scenario example_run 1 _ 1] n2
    by blast
  then have b: "initial_attempt (answering_world prose_answer) (example_cfg 2 1) example_scenario 1
        example_run =
      (example_run\<lparr>trace := trace example_run @ [Completed (example_proposal []) prose_answer],
                   last_agent_diff := prose_answer, attempts := 1\<rparr>, False)"
    unfolding q r2 s2 by simp
  show ?thesis using w nd a o b by blast
qed

text \<open>
  The check of the code accepts more than the words of the specification say: white
  space may stand before \<open>---\<close> and before \<open>diff\<close>, and any white space, a line feed
  too, between \<open>diff\<close> and \<open>--git\<close>. For both answers the patch is applied and the tests
  are run.
\<close>

theorem unmarked_response_is_applied:
  "\<not> spec_diff_marker indented_answer \<and>
   fst (initial_attempt (answering_world indented_answer) (example_cfg 2 1) example_scenario 1 example_run) =
     example_run\<lparr>trace := trace example_run @
         [Completed (example_proposal []) indented_answer, Ran GitResetHard exit_ok, Ran GitClean exit_ok,
          Ran (GitApply indented_answer) exit_ok, Ran example_test exit_ok],
       attempts := 1, last_agent_diff := indented_answer,
       log_buf := example_log_start @
         [LogAttemptPatch 1 indented_answer, LogAttemptOutput 1 [], LogSuccess 1 0 0],
       success := True\<rparr> \<and>
   \<not> spec_diff_marker broken_answer \<and>
   list_ex is_apply (trace (fst (post_refine_attempt (answering_world broken_answer) (example_cfg 2 1)
      example_scenario 1 1 example_run)))"
proof -
  have 1: "\<not> spec_diff_marker indented_answer"
    by (simp add: spec_diff_marker_def indented_answer_def splitlines_def is_linebreak_def startswith_def)
  have 2: "\<not> spec_diff_marker broken_answer"
    by (simp add: spec_diff_marker_def broken_answer_def splitlines_def is_linebreak_def startswith_def)
  have s1: "strip indented_answer = indented_answer"
    by (simp add: indented_answer_def strip_def isspace_def)
  have s2: "strip broken_answer = broken_answer"
    by (simp add: broken_answer_def strip_def isspace_def)
  have l1: "looks_like_diff indented_answer"
    by (simp add: indented_answer_def looks_like_diff_def line_starts_def match_dashes_def
        match_diff_git_def isspace_def startswith_def)
  have l2: "looks_like_diff broken_answer"
    by (simp add: broken_answer_def looks_like_diff_def line_starts_def match_dashes_def
        match_diff_git_def isspace_def startswith_def)
  have c1: "count_diff_lines indented_answer = (0, 0)"
    by (simp add: indented_answer_def count_diff_lines_def splitlines_def is_linebreak_def startswith_def)
  have t1: "take 18000 indented_answer = indented_answer" by (simp add: indented_answer_def)
  have 3: "fst (initial_attempt (answering_world indented_answer) (example_cfg 2 1) example_scenario 1
        example_run) =
     example_run\<lparr>trace := trace example_run @
         [Completed (example_proposal []) indented_answer, Ran GitResetHard exit_ok, Ran GitClean exit_ok,
          Ran (GitApply indented_answer) exit_ok, Ran example_test exit_ok],
       attempts := 1, last_agent_diff := indented_answer,
       log_buf := example_log_start @
         [LogAttemptPatch 1 indented_answer, LogAttemptOutput 1 [], LogSuccess 1 0 0],
       success := True\<rparr>"
    by (simp add: initial_attempt_def propose_patch_def complete_def approval_def
        apply_unified_diff_with_git_def ensure_clean_worktree_def run_cmd_def run_tests_def Let_def
        answering_world_def example_world_def example_cfg_def example_scenario_def example_run_def
        example_proposal_def s1 l1 c1 t1)
  have 4: "list_ex is_apply (trace (fst (post_refine_attempt (answering_world broken_answer)
      (example_cfg 2 1) example_scenario 1 1 example_run)))"
    by (simp add: post_refine_attempt_def propose_patch_def complete_def approval_def
        apply_unified_diff_with_git_def ensure_clean_worktree_def run_cmd_def run_tests_def Let_def
        answering_world_def example_world_def example_cfg_def example_scenario_def example_run_def
        s2 l2)
  show ?thesis using 1 2 3 4 by blast
qed

end
